theory Spec2Isabelle
  imports Main "HOL-Library.Word" "HOL-Library.Multiset"
begin

section \<open>Karmarkar-Karp multiway partitioning (src/LDMGPU/ldm.cpp)\<close>

text \<open>
  The program is one translation unit: the classes \<^verbatim>\<open>Subset\<close> and \<^verbatim>\<open>Partition\<close>, the
  comparators \<^verbatim>\<open>SubsetSumGreater\<close> and \<^verbatim>\<open>DifferenceLess\<close>, and the driver
  \<^verbatim>\<open>KarmarkarKarp\<close>. Its own code is deterministic and is embedded as functions. The
  calls into the C++ standard library (\<^verbatim>\<open>std::sort\<close>, \<^verbatim>\<open>std::make_heap\<close>,
  \<^verbatim>\<open>std::pop_heap\<close>, \<^verbatim>\<open>std::push_heap\<close>) are embedded by what the C++ standard
  guarantees about them: the order they give to elements that compare equal is not
  fixed by the standard, so each call is a relation between the range before and the
  range after, and the driver is a relation between its arguments and its outcomes.
  An \<^verbatim>\<open>assert\<close> that fails is an error value.
\<close>

subsection \<open>Numbers and subsets\<close>

text \<open>\<^verbatim>\<open>using Number = std::uint64_t;\<close> Arithmetic on it wraps modulo \<open>2^64\<close>.\<close>

type_synonym number = "64 word"

text \<open>
  \<^verbatim>\<open>class Subset\<close>: the members \<^verbatim>\<open>numbers_\<close> (a \<^verbatim>\<open>std::list<Number>\<close>) and \<^verbatim>\<open>sum_\<close>.
\<close>

record subset =
  numbers :: "number list"
  sum_of :: number

text \<open>\<^verbatim>\<open>Subset() : numbers_{}, sum_{} {}\<close>\<close>

definition Subset_empty :: subset where
  "Subset_empty = \<lparr>numbers = [], sum_of = 0\<rparr>"

text \<open>\<^verbatim>\<open>explicit Subset(const Number number) : numbers_{number}, sum_{number} {}\<close>\<close>

definition Subset_of :: "number \<Rightarrow> subset" where
  "Subset_of number = \<lparr>numbers = [number], sum_of = number\<rparr>"

text \<open>
  \<^verbatim>\<open>void Subset::Merge(Subset other)\<close>: splices the other list at the end of this one
  and adds the other sum to this one (wrapping).
\<close>

definition Subset_Merge :: "subset \<Rightarrow> subset \<Rightarrow> subset" where
  "Subset_Merge self other =
     \<lparr>numbers = numbers self @ numbers other, sum_of = sum_of self + sum_of other\<rparr>"

text \<open>\<^verbatim>\<open>SubsetSumGreater::operator()\<close>: \<^verbatim>\<open>a.sum() > b.sum()\<close>, unsigned.\<close>

definition SubsetSumGreater :: "subset \<Rightarrow> subset \<Rightarrow> bool" where
  "SubsetSumGreater a b = (sum_of a > sum_of b)"

subsection \<open>Errors\<close>

text \<open>
  The failed assertions of the program. \<open>InvalidInput\<close> stands for \<^verbatim>\<open>assert(!numbers.empty())\<close>
  and \<^verbatim>\<open>assert(k > 0)\<close> (in \<^verbatim>\<open>KarmarkarKarp\<close> and in the constructor of \<^verbatim>\<open>Partition\<close>),
  \<open>ShapeMismatch\<close> for \<^verbatim>\<open>assert(subsets_.size() == other.subsets_.size())\<close> in
  \<^verbatim>\<open>Partition::Merge\<close>.
\<close>

datatype error = InvalidInput | ShapeMismatch

subsection \<open>What the standard library guarantees\<close>

text \<open>
  A range is a heap with respect to \<open>cmp\<close> when no element compares greater than its
  parent: for all \<open>0 < i < N\<close>, \<open>cmp (a[(i - 1) / 2]) (a[i])\<close> is false.
\<close>

definition is_heap :: "('a \<Rightarrow> 'a \<Rightarrow> bool) \<Rightarrow> 'a list \<Rightarrow> bool" where
  "is_heap cmp xs = list_all (\<lambda>i. \<not> cmp (xs ! ((i - 1) div 2)) (xs ! i)) [1..<length xs]"

text \<open>
  \<^verbatim>\<open>std::sort(first, last, cmp)\<close>: the range afterwards (\<open>ys\<close>) holds the same elements
  as before (\<open>xs\<close>) and is sorted with respect to \<open>cmp\<close>: no later element compares
  before an earlier one.
\<close>

definition std_sort :: "('a \<Rightarrow> 'a \<Rightarrow> bool) \<Rightarrow> 'a list \<Rightarrow> 'a list \<Rightarrow> bool" where
  "std_sort cmp xs ys = (mset ys = mset xs \<and> sorted_wrt (\<lambda>a b. \<not> cmp b a) ys)"

text \<open>\<^verbatim>\<open>std::make_heap(first, last, cmp)\<close>: the same elements, arranged as a heap.\<close>

definition std_make_heap :: "('a \<Rightarrow> 'a \<Rightarrow> bool) \<Rightarrow> 'a list \<Rightarrow> 'a list \<Rightarrow> bool" where
  "std_make_heap cmp xs ys = (mset ys = mset xs \<and> is_heap cmp ys)"

text \<open>
  \<^verbatim>\<open>std::pop_heap(first, last, cmp)\<close>: requires a non-empty heap; swaps the value at
  \<open>first\<close> with the value at \<open>last - 1\<close> and makes \<open>[first, last - 1)\<close> a heap. So the
  last element afterwards is the first element before, and the others are the
  remaining elements, arranged as a heap.
\<close>

definition std_pop_heap :: "('a \<Rightarrow> 'a \<Rightarrow> bool) \<Rightarrow> 'a list \<Rightarrow> 'a list \<Rightarrow> bool" where
  "std_pop_heap cmp xs ys =
     (xs \<noteq> [] \<and> is_heap cmp xs \<and> ys \<noteq> [] \<and> last ys = hd xs \<and>
      mset (butlast ys) = mset (tl xs) \<and> is_heap cmp (butlast ys))"

text \<open>
  \<^verbatim>\<open>std::push_heap(first, last, cmp)\<close>: requires \<open>[first, last - 1)\<close> to be a heap;
  afterwards the whole range holds the same elements, arranged as a heap.
\<close>

definition std_push_heap :: "('a \<Rightarrow> 'a \<Rightarrow> bool) \<Rightarrow> 'a list \<Rightarrow> 'a list \<Rightarrow> bool" where
  "std_push_heap cmp xs ys =
     (xs \<noteq> [] \<and> is_heap cmp (butlast xs) \<and> mset ys = mset xs \<and> is_heap cmp ys)"

subsection \<open>Partitions\<close>

text \<open>\<^verbatim>\<open>class Partition\<close>: the member \<^verbatim>\<open>subsets_\<close>, a \<^verbatim>\<open>std::vector<Subset>\<close>.\<close>

record partition =
  subsets :: "subset list"

text \<open>
  \<^verbatim>\<open>Partition(const Number number, const std::size_t k) : subsets_(k)\<close>: \<open>k\<close> empty
  subsets, then \<^verbatim>\<open>assert(k > 0)\<close>, then the first subset absorbs \<^verbatim>\<open>Subset{number}\<close>.
\<close>

definition Partition :: "number \<Rightarrow> nat \<Rightarrow> error + partition" where
  "Partition number k =
     (let s = replicate k Subset_empty in
      if k > 0 then Inr \<lparr>subsets = s[0 := Subset_Merge (s ! 0) (Subset_of number)]\<rparr>
      else Inl InvalidInput)"

text \<open>
  \<^verbatim>\<open>Number difference() const\<close>: \<^verbatim>\<open>subsets_.front().sum() - subsets_.back().sum()\<close>, an
  unsigned subtraction, which wraps. Every partition is made by the constructor with
  \<open>k > 0\<close> and a merge keeps the size, so the vector is never empty where the program
  reads it (lemmas \<open>loop_head_shape\<close> and \<open>Partition_Merge_Inr\<close>).
\<close>

definition difference :: "partition \<Rightarrow> number" where
  "difference p = sum_of (hd (subsets p)) - sum_of (last (subsets p))"

text \<open>
  The \<^verbatim>\<open>while\<close> loop of \<^verbatim>\<open>Partition::Merge\<close>: \<open>it\<close> walks this partition's subsets
  forwards, \<open>other_it\<close> walks the other partition's subsets backwards (the second
  argument is the other vector reversed); each subset absorbs the one it is paired
  with, until either iterator reaches its end.
\<close>

fun merge_loop :: "subset list \<Rightarrow> subset list \<Rightarrow> subset list" where
  "merge_loop (s # ss) (t # ts) = Subset_Merge s t # merge_loop ss ts"
| "merge_loop ss [] = ss"
| "merge_loop [] ts = []"

text \<open>
  \<^verbatim>\<open>void Partition::Merge(Partition other)\<close>: the assertion on the sizes, the loop, then
  \<^verbatim>\<open>std::sort(subsets_.begin(), subsets_.end(), SubsetSumGreater{})\<close>. The third
  argument is an outcome: the error, or the partition afterwards.
\<close>

definition Partition_Merge :: "partition \<Rightarrow> partition \<Rightarrow> error + partition \<Rightarrow> bool" where
  "Partition_Merge self other r =
     (case r of
        Inl e \<Rightarrow> length (subsets self) \<noteq> length (subsets other) \<and> e = ShapeMismatch
      | Inr p \<Rightarrow> length (subsets self) = length (subsets other) \<and>
          std_sort SubsetSumGreater (merge_loop (subsets self) (rev (subsets other))) (subsets p))"

text \<open>\<^verbatim>\<open>DifferenceLess::operator()\<close>: \<^verbatim>\<open>a.difference() < b.difference()\<close>, unsigned.\<close>

definition DifferenceLess :: "partition \<Rightarrow> partition \<Rightarrow> bool" where
  "DifferenceLess a b = (difference a < difference b)"

subsection \<open>The driver\<close>

text \<open>
  The \<^verbatim>\<open>for\<close> loop of \<^verbatim>\<open>KarmarkarKarp\<close>: \<^verbatim>\<open>heap.emplace_back(number, k)\<close> for each
  number in order; a failing constructor ends it.
\<close>

fun emplace_all :: "number list \<Rightarrow> nat \<Rightarrow> error + partition list" where
  "emplace_all [] k = Inr []"
| "emplace_all (number # rest) k =
     (case Partition number k of
        Inl e \<Rightarrow> Inl e
      | Inr p \<Rightarrow> (case emplace_all rest k of Inl e \<Rightarrow> Inl e | Inr ps \<Rightarrow> Inr (p # ps)))"

text \<open>
  One pass through the body of the \<^verbatim>\<open>while\<close> loop. \<open>h1\<close> is the heap after the first
  \<^verbatim>\<open>pop_heap\<close>; \<open>last h1\<close> is moved into \<^verbatim>\<open>partition\<close> and popped; \<open>h3\<close> is the heap after
  the second \<^verbatim>\<open>pop_heap\<close>; \<open>heap.back()\<close> absorbs \<^verbatim>\<open>partition\<close>; \<^verbatim>\<open>push_heap\<close> gives the
  heap for the next pass.
\<close>

inductive loop_body :: "partition list \<Rightarrow> error + partition list \<Rightarrow> bool" where
  body_ok:
    "std_pop_heap DifferenceLess heap h1 \<Longrightarrow>
     std_pop_heap DifferenceLess (butlast h1) h3 \<Longrightarrow>
     Partition_Merge (last h3) (last h1) (Inr m) \<Longrightarrow>
     std_push_heap DifferenceLess (h3[length h3 - 1 := m]) h5 \<Longrightarrow>
     loop_body heap (Inr h5)"
| body_fail:
    "std_pop_heap DifferenceLess heap h1 \<Longrightarrow>
     std_pop_heap DifferenceLess (butlast h1) h3 \<Longrightarrow>
     Partition_Merge (last h3) (last h1) (Inl e) \<Longrightarrow>
     loop_body heap (Inl e)"

text \<open>
  The \<^verbatim>\<open>while (heap.size() > 1)\<close> loop and the final \<^verbatim>\<open>return std::move(heap.front())\<close>.
  The number counts the passes through the body that ran to their end.
\<close>

inductive while_loop :: "partition list \<Rightarrow> nat \<Rightarrow> error + partition \<Rightarrow> bool" where
  loop_exit:
    "\<not> length heap > 1 \<Longrightarrow> heap \<noteq> [] \<Longrightarrow> while_loop heap 0 (Inr (hd heap))"
| loop_pass:
    "length heap > 1 \<Longrightarrow> loop_body heap (Inr heap') \<Longrightarrow> while_loop heap' n r \<Longrightarrow>
     while_loop heap (Suc n) r"
| loop_fail:
    "length heap > 1 \<Longrightarrow> loop_body heap (Inl e) \<Longrightarrow> while_loop heap 0 (Inl e)"

text \<open>
  \<^verbatim>\<open>Partition KarmarkarKarp(const std::vector<Number>& numbers, const std::size_t k)\<close>,
  with the number of merge steps it made (\<open>nums\<close> is the argument \<^verbatim>\<open>numbers\<close>; sizes
  are natural numbers). The two assertions come first, then the \<^verbatim>\<open>for\<close> loop,
  \<^verbatim>\<open>make_heap\<close> and the \<^verbatim>\<open>while\<close> loop.
\<close>

inductive KarmarkarKarp_steps :: "number list \<Rightarrow> nat \<Rightarrow> nat \<Rightarrow> error + partition \<Rightarrow> bool" where
  kk_empty:
    "nums = [] \<Longrightarrow> KarmarkarKarp_steps nums k 0 (Inl InvalidInput)"
| kk_zero:
    "nums \<noteq> [] \<Longrightarrow> \<not> k > 0 \<Longrightarrow> KarmarkarKarp_steps nums k 0 (Inl InvalidInput)"
| kk_ctor_fail:
    "nums \<noteq> [] \<Longrightarrow> k > 0 \<Longrightarrow> emplace_all nums k = Inl e \<Longrightarrow>
     KarmarkarKarp_steps nums k 0 (Inl e)"
| kk_run:
    "nums \<noteq> [] \<Longrightarrow> k > 0 \<Longrightarrow> emplace_all nums k = Inr heap0 \<Longrightarrow>
     std_make_heap DifferenceLess heap0 heap \<Longrightarrow> while_loop heap n r \<Longrightarrow>
     KarmarkarKarp_steps nums k n r"

definition KarmarkarKarp :: "number list \<Rightarrow> nat \<Rightarrow> error + partition \<Rightarrow> bool" where
  "KarmarkarKarp nums k r = (\<exists>n. KarmarkarKarp_steps nums k n r)"

text \<open>
  The vectors that stand at the test of the \<^verbatim>\<open>while\<close> loop in the runs of
  \<^verbatim>\<open>KarmarkarKarp\<close> on \<open>nums\<close> and \<open>k\<close>: the heap that \<^verbatim>\<open>make_heap\<close> leaves, and the
  heap after every pass through the body.
\<close>

inductive loop_head :: "number list \<Rightarrow> nat \<Rightarrow> partition list \<Rightarrow> bool"
  for nums :: "number list" and k :: nat where
  head_first:
    "nums \<noteq> [] \<Longrightarrow> k > 0 \<Longrightarrow> emplace_all nums k = Inr heap0 \<Longrightarrow>
     std_make_heap DifferenceLess heap0 heap \<Longrightarrow> loop_head nums k heap"
| head_next:
    "loop_head nums k heap \<Longrightarrow> length heap > 1 \<Longrightarrow> loop_body heap (Inr heap') \<Longrightarrow>
     loop_head nums k heap'"

subsection \<open>What is observed of a partition\<close>

text \<open>The numbers a partition holds, over all its subsets, as a multiset.\<close>

definition weights :: "partition \<Rightarrow> number multiset" where
  "weights p = mset (concat (map numbers (subsets p)))"

text \<open>The subsets stand in descending order of their sums.\<close>

definition descending :: "partition \<Rightarrow> bool" where
  "descending p = sorted_wrt (\<lambda>a b. sum_of b \<le> sum_of a) (subsets p)"

text \<open>The member \<^verbatim>\<open>sum_\<close> of every subset is the sum of its numbers (modulo \<open>2^64\<close>).\<close>

definition sums_cached :: "partition \<Rightarrow> bool" where
  "sums_cached p = list_all (\<lambda>s. sum_of s = sum_list (numbers s)) (subsets p)"

text \<open>
  Every subset is either empty with sum 0 or holds one number, which is not 0 and is
  its sum.
\<close>

definition alone :: "subset \<Rightarrow> bool" where
  "alone s = (case numbers s of
                [] \<Rightarrow> sum_of s = 0
              | [w] \<Rightarrow> w \<noteq> 0 \<and> sum_of s = w
              | _ \<Rightarrow> False)"

definition each_alone :: "partition \<Rightarrow> bool" where
  "each_alone p = list_all alone (subsets p)"

subsection \<open>One run of the program\<close>

text \<open>
  The library calls done by insertion sort, which leaves elements that compare equal
  in the order it found them: \<^verbatim>\<open>std::sort\<close> as an insertion sort, and each heap
  operation by sorting the range in descending order of \<open>difference\<close> (a range sorted
  so is a heap). This fixes one run of \<^verbatim>\<open>KarmarkarKarp\<close> among those the library
  allows (lemma \<open>KarmarkarKarp_run_steps\<close>); it is what shows that runs exist, and it
  computes.
\<close>

fun insert_by :: "('a \<Rightarrow> 'a \<Rightarrow> bool) \<Rightarrow> 'a \<Rightarrow> 'a list \<Rightarrow> 'a list" where
  "insert_by cmp x [] = [x]"
| "insert_by cmp x (y # ys) = (if cmp y x then y # insert_by cmp x ys else x # y # ys)"

fun insertion_sort :: "('a \<Rightarrow> 'a \<Rightarrow> bool) \<Rightarrow> 'a list \<Rightarrow> 'a list" where
  "insertion_sort cmp [] = []"
| "insertion_sort cmp (x # xs) = insert_by cmp x (insertion_sort cmp xs)"

definition sorted_heap :: "partition list \<Rightarrow> partition list" where
  "sorted_heap xs = insertion_sort (\<lambda>a b. DifferenceLess b a) xs"

definition run_pop_heap :: "partition list \<Rightarrow> partition list" where
  "run_pop_heap xs = sorted_heap (tl xs) @ [hd xs]"

definition run_Merge :: "partition \<Rightarrow> partition \<Rightarrow> partition" where
  "run_Merge self other =
     \<lparr>subsets = insertion_sort SubsetSumGreater (merge_loop (subsets self) (rev (subsets other)))\<rparr>"

definition run_body :: "partition list \<Rightarrow> partition list" where
  "run_body heap =
     (let h1 = run_pop_heap heap;
          h3 = run_pop_heap (butlast h1);
          m = run_Merge (last h3) (last h1)
      in sorted_heap (h3[length h3 - 1 := m]))"

function run_while :: "partition list \<Rightarrow> partition" where
  "run_while heap = (if length heap > 1 then run_while (run_body heap) else hd heap)"
  by pat_completeness auto
termination
proof (relation "measure length")
  show "wf (measure length)" by simp
next
  fix heap :: "partition list"
  assume long: "1 < length heap"
  have ins: "length (insert_by cmp x ys) = Suc (length ys)"
    for cmp and x :: partition and ys
    by (induction ys) simp_all
  have srt: "length (insertion_sort cmp xs) = length xs"
    for cmp and xs :: "partition list"
    by (induction xs) (simp_all add: ins)
  have "length (run_body heap) = length heap - 1"
    using long by (simp add: run_body_def run_pop_heap_def sorted_heap_def srt Let_def)
  with long show "(run_body heap, heap) \<in> measure length" by simp
qed

declare run_while.simps [simp del]

definition KarmarkarKarp_run :: "number list \<Rightarrow> nat \<Rightarrow> error + partition" where
  "KarmarkarKarp_run nums k =
     (if nums = [] then Inl InvalidInput
      else if \<not> k > 0 then Inl InvalidInput
      else case emplace_all nums k of
             Inl e \<Rightarrow> Inl e
           | Inr heap0 \<Rightarrow> Inr (run_while (sorted_heap heap0)))"

subsection \<open>Values of a run on the numbers 1, 2, 4 with two subsets\<close>

text \<open>
  A partition of one number and two subsets as the constructor makes it, the merge of
  the partitions of 2 and of 4, and the result.
\<close>

abbreviation single :: "number \<Rightarrow> partition" where
  "single n \<equiv> \<lparr>subsets = [\<lparr>numbers = [n], sum_of = n\<rparr>, \<lparr>numbers = [], sum_of = 0\<rparr>]\<rparr>"

abbreviation merged24 :: partition where
  "merged24 \<equiv> \<lparr>subsets = [\<lparr>numbers = [4], sum_of = 4\<rparr>, \<lparr>numbers = [2], sum_of = 2\<rparr>]\<rparr>"

abbreviation result124 :: partition where
  "result124 \<equiv> \<lparr>subsets = [\<lparr>numbers = [4], sum_of = 4\<rparr>, \<lparr>numbers = [1, 2], sum_of = 3\<rparr>]\<rparr>"

text \<open>
  Results of runs on other inputs: 1, 2 with two subsets; 0, 0, 0 with three; 1, 2, 4
  with one; 3, 3, 3 with three; 4, 5, 6, 7, 8 with two.
\<close>

abbreviation result12 :: partition where
  "result12 \<equiv> \<lparr>subsets = [\<lparr>numbers = [2], sum_of = 2\<rparr>, \<lparr>numbers = [1], sum_of = 1\<rparr>]\<rparr>"

abbreviation result000 :: partition where
  "result000 \<equiv> \<lparr>subsets = [\<lparr>numbers = [0], sum_of = 0\<rparr>, \<lparr>numbers = [], sum_of = 0\<rparr>,
                             \<lparr>numbers = [0, 0], sum_of = 0\<rparr>]\<rparr>"

abbreviation result124_in_one :: partition where
  "result124_in_one \<equiv> \<lparr>subsets = [\<lparr>numbers = [2, 1, 4], sum_of = 7\<rparr>]\<rparr>"

abbreviation result333 :: partition where
  "result333 \<equiv> \<lparr>subsets = [\<lparr>numbers = [3], sum_of = 3\<rparr>, \<lparr>numbers = [3], sum_of = 3\<rparr>,
                             \<lparr>numbers = [3], sum_of = 3\<rparr>]\<rparr>"

abbreviation result45678 :: partition where
  "result45678 \<equiv> \<lparr>subsets = [\<lparr>numbers = [5, 7, 4], sum_of = 16\<rparr>,
                               \<lparr>numbers = [6, 8], sum_of = 14\<rparr>]\<rparr>"

section \<open>Properties\<close>

subsection \<open>The merge loop, heaps, and one pass of the driver loop\<close>

lemma merge_loop_map2:
  "length xs = length ys \<Longrightarrow> merge_loop xs ys = map2 Subset_Merge xs ys"
  by (induction xs ys rule: merge_loop.induct) auto

lemma length_merge_loop [simp]:
  "length xs = length ys \<Longrightarrow> length (merge_loop xs ys) = length xs"
  by (simp add: merge_loop_map2)

lemma nth_merge_loop:
  "length xs = length ys \<Longrightarrow> i < length xs \<Longrightarrow>
   merge_loop xs ys ! i = Subset_Merge (xs ! i) (ys ! i)"
  by (simp add: merge_loop_map2)

lemma numbers_merge_loop:
  "length xs = length ys \<Longrightarrow>
   mset (concat (map numbers (merge_loop xs ys))) =
   mset (concat (map numbers xs)) + mset (concat (map numbers ys))"
  by (induction xs ys rule: merge_loop.induct) (auto simp: Subset_Merge_def)

lemma mset_concat_map: "mset (concat (map f xs)) = (\<Sum>x\<in>#mset xs. mset (f x))"
  by (induction xs) simp_all

lemma mset_concat_map_cong:
  "mset xs = mset ys \<Longrightarrow> mset (concat (map f xs)) = mset (concat (map f ys))"
  by (simp add: mset_concat_map)

lemma heap_parent_chain:
  assumes "is_heap DifferenceLess xs" "i < length xs"
  shows "difference (xs ! i) \<le> difference (xs ! 0)"
  using assms(2)
proof (induction i rule: less_induct)
  case (less i)
  show ?case
  proof (cases "i = 0")
    case True then show ?thesis by simp
  next
    case False
    then have "i \<in> set [1..<length xs]" using less.prems by simp
    with assms(1) have "\<not> DifferenceLess (xs ! ((i - 1) div 2)) (xs ! i)"
      unfolding is_heap_def list_all_iff by blast
    then have a: "difference (xs ! i) \<le> difference (xs ! ((i - 1) div 2))"
      by (simp add: DifferenceLess_def)
    have "(i - 1) div 2 < i" using False by simp
    moreover have "(i - 1) div 2 < length xs" using less.prems False by simp
    ultimately have "difference (xs ! ((i - 1) div 2)) \<le> difference (xs ! 0)"
      using less.IH by blast
    with a show ?thesis by simp
  qed
qed

lemma heap_front_max:
  assumes "is_heap DifferenceLess xs" "x \<in> set xs"
  shows "difference x \<le> difference (hd xs)"
proof -
  from assms(2) obtain i where "i < length xs" "xs ! i = x"
    by (auto simp: in_set_conv_nth)
  moreover from assms(2) have "xs \<noteq> []" by auto
  ultimately show ?thesis
    using heap_parent_chain [OF assms(1), of i] by (simp add: hd_conv_nth)
qed

lemma mset_hd_tl: "xs \<noteq> [] \<Longrightarrow> mset xs = add_mset (hd xs) (mset (tl xs))"
  by (cases xs) simp_all

lemma update_last: "xs \<noteq> [] \<Longrightarrow> xs[length xs - 1 := m] = butlast xs @ [m]"
proof (induction xs)
  case Nil
  then show ?case by simp
next
  case (Cons a xs)
  then show ?case by (cases xs) simp_all
qed

lemma two_pops:
  assumes "std_pop_heap DifferenceLess heap h1" "std_pop_heap DifferenceLess (butlast h1) h3"
  shows "mset heap = add_mset (last h1) (add_mset (last h3) (mset (butlast h3)))"
    and "last h1 = hd heap"
    and "\<forall>p\<in>#mset heap. difference p \<le> difference (last h1)"
    and "\<forall>p\<in>#add_mset (last h3) (mset (butlast h3)). difference p \<le> difference (last h3)"
    and "h3 \<noteq> []"
proof -
  from assms(1) have p1: "heap \<noteq> []" "is_heap DifferenceLess heap"
    "last h1 = hd heap" "mset (butlast h1) = mset (tl heap)"
    unfolding std_pop_heap_def by blast+
  from assms(2) have p2: "butlast h1 \<noteq> []" "is_heap DifferenceLess (butlast h1)" "h3 \<noteq> []"
    "last h3 = hd (butlast h1)" "mset (butlast h3) = mset (tl (butlast h1))"
    unfolding std_pop_heap_def by blast+
  have m1: "mset (butlast h1) = add_mset (last h3) (mset (butlast h3))"
    unfolding p2(4,5) using p2(1) by (rule mset_hd_tl)
  have "mset heap = add_mset (last h1) (mset (butlast h1))"
    unfolding p1(3,4) using p1(1) by (rule mset_hd_tl)
  then show "mset heap = add_mset (last h1) (add_mset (last h3) (mset (butlast h3)))"
    unfolding m1 .
  show "last h1 = hd heap" by (rule p1(3))
  show "\<forall>p\<in>#mset heap. difference p \<le> difference (last h1)"
    unfolding p1(3) using heap_front_max [OF p1(2)] by simp
  have "\<forall>p\<in>#mset (butlast h1). difference p \<le> difference (last h3)"
    unfolding p2(4) using heap_front_max [OF p2(2)] by simp
  then show "\<forall>p\<in>#add_mset (last h3) (mset (butlast h3)). difference p \<le> difference (last h3)"
    unfolding m1 .
  show "h3 \<noteq> []" by (rule p2(3))
qed

lemma loop_body_decomp:
  assumes "loop_body heap r"
  obtains (ok) A B rest M h' where
      "r = Inr h'" "mset heap = add_mset A (add_mset B rest)" "mset h' = add_mset M rest"
      "Partition_Merge B A (Inr M)" "is_heap DifferenceLess h'" "A = hd heap"
      "\<forall>p\<in>#mset heap. difference p \<le> difference A"
      "\<forall>p\<in>#add_mset B rest. difference p \<le> difference B"
    | (fail) A B rest where
      "r = Inl ShapeMismatch" "mset heap = add_mset A (add_mset B rest)"
      "length (subsets B) \<noteq> length (subsets A)"
  using assms
proof (cases rule: loop_body.cases)
  case (body_ok h1 h3 m h5)
  note tp = two_pops [OF body_ok(2,3)]
  from body_ok(5) have p3: "mset h5 = mset (h3[length h3 - 1 := m])" "is_heap DifferenceLess h5"
    unfolding std_push_heap_def by blast+
  have "mset h5 = add_mset m (mset (butlast h3))"
    unfolding p3(1) update_last [OF tp(5)] by simp
  then show ?thesis
    using ok [OF body_ok(1) tp(1) _ body_ok(4) p3(2) tp(2) tp(3) tp(4)] by blast
next
  case (body_fail h1 h3 e)
  note tp = two_pops [OF body_fail(2,3)]
  from body_fail(4) have "e = ShapeMismatch" "length (subsets (last h3)) \<noteq> length (subsets (last h1))"
    unfolding Partition_Merge_def by simp_all
  then show ?thesis
    using fail [OF _ tp(1)] body_fail(1) by blast
qed

lemma while_loop_invariant:
  assumes "while_loop heap n r" and "J (mset heap)"
    and step: "\<And>A B rest M. J (add_mset A (add_mset B rest)) \<Longrightarrow>
                 Partition_Merge B A (Inr M) \<Longrightarrow> J (add_mset M rest)"
    and same: "\<And>A B rest. J (add_mset A (add_mset B rest)) \<Longrightarrow>
                 length (subsets B) = length (subsets A)"
  shows "\<exists>p. r = Inr p \<and> J {#p#} \<and> Suc n = length heap"
  using assms(1,2)
proof (induction rule: while_loop.induct)
  case (loop_exit heap)
  then obtain p where "heap = [p]" by (cases heap) auto
  with loop_exit show ?case by simp
next
  case (loop_pass heap heap' n r)
  from loop_pass(2) show ?case
  proof (cases rule: loop_body_decomp)
    case (ok A B rest M h')
    with loop_pass.prems have "J (mset heap')" using step by auto
    with loop_pass.IH obtain p where "r = Inr p" "J {#p#}" "Suc n = length heap'" by blast
    moreover have "size (mset heap) = Suc (size (mset heap'))" using ok by simp
    ultimately show ?thesis by simp
  next
    case (fail A B rest)
    then show ?thesis by simp
  qed
next
  case (loop_fail heap e)
  from loop_fail(2) show ?case
  proof (cases rule: loop_body_decomp)
    case (ok A B rest M h')
    then show ?thesis by simp
  next
    case (fail A B rest)
    with loop_fail.prems same [of A B rest] show ?thesis by simp
  qed
qed

subsection \<open>Constructor and merge\<close>

lemma Partition_ok:
  "k > 0 \<Longrightarrow> Partition number k =
     Inr \<lparr>subsets = \<lparr>numbers = [number], sum_of = number\<rparr> # replicate (k - 1) Subset_empty\<rparr>"
  by (cases k) (simp_all add: Partition_def Subset_Merge_def Subset_empty_def Subset_of_def)

lemma Partition_error: "Partition number k = Inl e \<longleftrightarrow> k = 0 \<and> e = InvalidInput"
  by (auto simp: Partition_def Let_def split: if_splits)

lemma emplace_all_ok:
  "k > 0 \<Longrightarrow> emplace_all nums k =
     Inr (map (\<lambda>n. \<lparr>subsets = \<lparr>numbers = [n], sum_of = n\<rparr> # replicate (k - 1) Subset_empty\<rparr>) nums)"
  by (induction nums) (simp_all add: Partition_ok)

lemma Partition_Merge_Inr:
  assumes "Partition_Merge self other (Inr p)"
  shows "length (subsets self) = length (subsets other)"
    and "mset (subsets p) = mset (map2 Subset_Merge (subsets self) (rev (subsets other)))"
    and "sorted_wrt (\<lambda>a b. sum_of b \<le> sum_of a) (subsets p)"
    and "length (subsets p) = length (subsets self)"
proof -
  from assms have len: "length (subsets self) = length (subsets other)"
    and srt: "std_sort SubsetSumGreater (merge_loop (subsets self) (rev (subsets other))) (subsets p)"
    by (simp_all add: Partition_Merge_def)
  show "length (subsets self) = length (subsets other)" by (rule len)
  from srt len show ms: "mset (subsets p) = mset (map2 Subset_Merge (subsets self) (rev (subsets other)))"
    by (simp add: std_sort_def merge_loop_map2)
  from srt show "sorted_wrt (\<lambda>a b. sum_of b \<le> sum_of a) (subsets p)"
    by (simp add: std_sort_def SubsetSumGreater_def not_less)
  from arg_cong [OF ms, of size] len show "length (subsets p) = length (subsets self)"
    by simp
qed

lemma Partition_Merge_weights:
  assumes "Partition_Merge self other (Inr p)"
  shows "weights p = weights self + weights other"
proof -
  from assms have len: "length (subsets self) = length (rev (subsets other))"
    and ms: "mset (subsets p) = mset (merge_loop (subsets self) (rev (subsets other)))"
    by (simp_all add: Partition_Merge_def std_sort_def)
  have "weights p = mset (concat (map numbers (merge_loop (subsets self) (rev (subsets other)))))"
    unfolding weights_def by (rule mset_concat_map_cong [OF ms])
  also have "\<dots> = weights self + mset (concat (map numbers (rev (subsets other))))"
    unfolding weights_def by (rule numbers_merge_loop [OF len])
  also have "mset (concat (map numbers (rev (subsets other)))) = weights other"
    unfolding weights_def by (rule mset_concat_map_cong) simp
  finally show ?thesis .
qed

subsection \<open>Insertion sort, and the run it gives\<close>

lemma mset_insert_by: "mset (insert_by cmp x ys) = add_mset x (mset ys)"
  by (induction ys) simp_all

lemma mset_insertion_sort: "mset (insertion_sort cmp xs) = mset xs"
  by (induction xs) (simp_all add: mset_insert_by)

lemma set_insert_by: "set (insert_by cmp x ys) = insert x (set ys)"
  using arg_cong [OF mset_insert_by, of set_mset cmp x ys] by simp

lemma sorted_insert_by:
  assumes asym: "\<And>a b. cmp a b \<Longrightarrow> \<not> cmp b a"
    and ntrans: "\<And>a b c. \<not> cmp a b \<Longrightarrow> \<not> cmp b c \<Longrightarrow> \<not> cmp a c"
  shows "sorted_wrt (\<lambda>a b. \<not> cmp b a) ys \<Longrightarrow> sorted_wrt (\<lambda>a b. \<not> cmp b a) (insert_by cmp x ys)"
proof (induction ys)
  case Nil
  then show ?case by simp
next
  case (Cons y ys)
  show ?case
  proof (cases "cmp y x")
    case True
    with Cons asym show ?thesis by (auto simp: set_insert_by)
  next
    case False
    with Cons ntrans show ?thesis by auto
  qed
qed

lemma sorted_insertion_sort:
  assumes "\<And>a b. cmp a b \<Longrightarrow> \<not> cmp b a"
    and "\<And>a b c. \<not> cmp a b \<Longrightarrow> \<not> cmp b c \<Longrightarrow> \<not> cmp a c"
  shows "sorted_wrt (\<lambda>a b. \<not> cmp b a) (insertion_sort cmp xs)"
  by (induction xs) (simp_all add: sorted_insert_by [where cmp = cmp, OF assms])

lemma std_sort_insertion_sort:
  "std_sort SubsetSumGreater xs (insertion_sort SubsetSumGreater xs)"
  unfolding std_sort_def
  by (intro conjI mset_insertion_sort sorted_insertion_sort)
     (auto simp: SubsetSumGreater_def)

lemma sorted_is_heap:
  assumes "sorted_wrt (\<lambda>a b. \<not> cmp a b) xs"
  shows "is_heap cmp xs"
  unfolding is_heap_def list_all_iff
proof
  fix i assume "i \<in> set [1..<length xs]"
  then have "(i - 1) div 2 < i" "i < length xs" by auto
  with assms show "\<not> cmp (xs ! ((i - 1) div 2)) (xs ! i)"
    by (simp add: sorted_wrt_iff_nth_less)
qed

lemma sorted_heap: "mset (sorted_heap xs) = mset xs" "is_heap DifferenceLess (sorted_heap xs)"
proof -
  show "mset (sorted_heap xs) = mset xs"
    by (simp add: sorted_heap_def mset_insertion_sort)
  have "sorted_wrt (\<lambda>a b. \<not> DifferenceLess a b) (sorted_heap xs)"
    unfolding sorted_heap_def
    by (rule sorted_insertion_sort) (auto simp: DifferenceLess_def)
  then show "is_heap DifferenceLess (sorted_heap xs)"
    by (rule sorted_is_heap)
qed

lemma length_sorted_heap [simp]: "length (sorted_heap xs) = length xs"
  using arg_cong [OF sorted_heap(1), of size xs] by simp

lemma sorted_heap_Nil [simp]: "sorted_heap xs = [] \<longleftrightarrow> xs = []"
proof -
  have "length (sorted_heap xs) = 0 \<longleftrightarrow> length xs = 0" by simp
  then show ?thesis by (simp only: length_0_conv)
qed

lemma length_run_body: "length heap > 1 \<Longrightarrow> length (run_body heap) = length heap - 1"
  by (simp add: run_body_def run_pop_heap_def Let_def)

lemma run_pop_heap:
  assumes "xs \<noteq> []" "is_heap DifferenceLess xs"
  shows "std_pop_heap DifferenceLess xs (run_pop_heap xs)"
  using assms by (simp add: std_pop_heap_def run_pop_heap_def sorted_heap)

lemma run_Merge:
  assumes "length (subsets self) = length (subsets other)"
  shows "Partition_Merge self other (Inr (run_Merge self other))"
  using assms by (simp add: Partition_Merge_def run_Merge_def std_sort_insertion_sort)

lemma run_body:
  assumes "length heap > 1" "is_heap DifferenceLess heap" "\<forall>p\<in>set heap. length (subsets p) = k"
  shows "loop_body heap (Inr (run_body heap))"
proof -
  let ?h1 = "run_pop_heap heap"
  let ?h3 = "run_pop_heap (butlast ?h1)"
  let ?m = "run_Merge (last ?h3) (last ?h1)"
  from assms(1) have ne: "heap \<noteq> []" "tl heap \<noteq> []"
    by (cases heap; auto)+
  have b1: "butlast ?h1 = sorted_heap (tl heap)" by (simp add: run_pop_heap_def)
  have ne1: "butlast ?h1 \<noteq> []"
    unfolding b1 using ne(2) by simp
  have pop1: "std_pop_heap DifferenceLess heap ?h1"
    using ne(1) assms(2) by (rule run_pop_heap)
  have pop2: "std_pop_heap DifferenceLess (butlast ?h1) ?h3"
    using ne1 unfolding b1 by (rule run_pop_heap) (rule sorted_heap(2))
  have "last ?h1 = hd heap" by (simp add: run_pop_heap_def)
  with ne(1) have inA: "last ?h1 \<in> set heap" by simp
  have "last ?h3 = hd (sorted_heap (tl heap))" by (simp add: run_pop_heap_def)
  then have "last ?h3 \<in> set (sorted_heap (tl heap))" using ne1 b1 by simp
  then have "last ?h3 \<in># mset (sorted_heap (tl heap))" by simp
  then have "last ?h3 \<in> set (tl heap)" unfolding sorted_heap(1) by simp
  then have inB: "last ?h3 \<in> set heap" by (rule list.set_sel(2) [OF ne(1)])
  from inA inB assms(3) have "length (subsets (last ?h3)) = length (subsets (last ?h1))" by simp
  then have mg: "Partition_Merge (last ?h3) (last ?h1) (Inr ?m)" by (rule run_Merge)
  have ne3: "?h3 \<noteq> []" by (simp add: run_pop_heap_def)
  have "is_heap DifferenceLess (butlast ?h3)" by (simp add: run_pop_heap_def sorted_heap)
  then have "is_heap DifferenceLess (butlast (?h3[length ?h3 - 1 := ?m]))"
    unfolding update_last [OF ne3] by simp
  then have push: "std_push_heap DifferenceLess (?h3[length ?h3 - 1 := ?m]) (sorted_heap (?h3[length ?h3 - 1 := ?m]))"
    using ne3 by (simp add: std_push_heap_def sorted_heap)
  have "loop_body heap (Inr (sorted_heap (?h3[length ?h3 - 1 := ?m])))"
    using pop1 pop2 mg push by (rule body_ok)
  then show ?thesis by (simp add: run_body_def Let_def)
qed

lemma loop_body_lengths:
  assumes "loop_body heap (Inr heap')" "\<forall>p\<in>set heap. length (subsets p) = k"
  shows "\<forall>p\<in>set heap'. length (subsets p) = k"
  using assms(1)
proof (cases rule: loop_body_decomp)
  case (ok A B rest M h')
  from ok(1) have h': "h' = heap'" by simp
  from assms(2) have "\<forall>p\<in>#mset heap. length (subsets p) = k" by simp
  then have AB: "length (subsets B) = k" "\<forall>p\<in>#rest. length (subsets p) = k"
    unfolding ok(2) by simp_all
  from Partition_Merge_Inr(4) [OF ok(4)] AB(1) have "length (subsets M) = k" by simp
  with AB(2) have "\<forall>p\<in>#mset heap'. length (subsets p) = k"
    using ok(3) unfolding h' by simp
  then show ?thesis by simp
next
  case (fail A B rest)
  then show ?thesis by simp
qed

lemma run_while:
  "heap \<noteq> [] \<Longrightarrow> is_heap DifferenceLess heap \<Longrightarrow> \<forall>p\<in>set heap. length (subsets p) = k \<Longrightarrow>
   while_loop heap (length heap - 1) (Inr (run_while heap))"
proof (induction heap rule: run_while.induct)
  case (1 heap)
  show ?case
  proof (cases "length heap > 1")
    case True
    have body: "loop_body heap (Inr (run_body heap))"
      using True "1.prems"(2,3) by (rule run_body)
    have ne: "run_body heap \<noteq> []"
      using True length_run_body [of heap] by auto
    have hp: "is_heap DifferenceLess (run_body heap)"
      by (simp add: run_body_def Let_def sorted_heap)
    have "while_loop (run_body heap) (length (run_body heap) - 1) (Inr (run_while (run_body heap)))"
      using True ne hp loop_body_lengths [OF body "1.prems"(3)] by (rule "1.IH")
    with True body have "while_loop heap (Suc (length (run_body heap) - 1)) (Inr (run_while (run_body heap)))"
      by (rule loop_pass)
    moreover have "Suc (length (run_body heap) - 1) = length heap - 1"
      using True by (simp add: length_run_body)
    moreover have "run_while heap = run_while (run_body heap)"
      using True by (subst run_while.simps) simp
    ultimately show ?thesis by simp
  next
    case False
    then have "while_loop heap 0 (Inr (hd heap))" using "1.prems"(1) by (rule loop_exit)
    moreover from False "1.prems"(1) have "length heap - 1 = 0" by simp
    moreover have "run_while heap = hd heap"
      using False by (subst run_while.simps) simp
    ultimately show ?thesis by simp
  qed
qed

lemma KarmarkarKarp_run_steps:
  assumes "nums \<noteq> []" "k > 0"
  shows "KarmarkarKarp_steps nums k (length nums - 1) (KarmarkarKarp_run nums k)"
proof -
  let ?heap0 = "map (\<lambda>n. \<lparr>subsets = \<lparr>numbers = [n], sum_of = n\<rparr> # replicate (k - 1) Subset_empty\<rparr>) nums"
  have em: "emplace_all nums k = Inr ?heap0" using assms(2) by (rule emplace_all_ok)
  have mk: "std_make_heap DifferenceLess ?heap0 (sorted_heap ?heap0)"
    by (simp add: std_make_heap_def sorted_heap)
  have "\<forall>p\<in>set ?heap0. length (subsets p) = k" using assms(2) by auto
  then have "\<forall>p\<in>#mset (sorted_heap ?heap0). length (subsets p) = k"
    unfolding sorted_heap(1) by simp
  then have len: "\<forall>p\<in>set (sorted_heap ?heap0). length (subsets p) = k" by simp
  have ne: "sorted_heap ?heap0 \<noteq> []"
    using assms(1) by simp
  have "while_loop (sorted_heap ?heap0) (length (sorted_heap ?heap0) - 1) (Inr (run_while (sorted_heap ?heap0)))"
    using ne sorted_heap(2) len by (rule run_while)
  then have "while_loop (sorted_heap ?heap0) (length nums - 1) (Inr (run_while (sorted_heap ?heap0)))"
    by simp
  with assms em mk have "KarmarkarKarp_steps nums k (length nums - 1) (Inr (run_while (sorted_heap ?heap0)))"
    by (rule kk_run)
  then show ?thesis using assms em by (simp add: KarmarkarKarp_run_def)
qed

subsection \<open>Invariants of the driver\<close>

lemma emplace_all_length:
  assumes "emplace_all nums k = Inr heap0" "k > 0"
  shows "length heap0 = length nums" "\<forall>p\<in>set heap0. length (subsets p) = k"
  using assms emplace_all_ok [OF assms(2), of nums] by auto

lemma KarmarkarKarp_invariant:
  assumes run: "KarmarkarKarp_steps nums k n r" and valid: "nums \<noteq> []" "k > 0"
    and init: "\<And>heap0. emplace_all nums k = Inr heap0 \<Longrightarrow> J (mset heap0)"
    and step: "\<And>A B rest M. J (add_mset A (add_mset B rest)) \<Longrightarrow>
                 length (subsets A) = k \<Longrightarrow> length (subsets B) = k \<Longrightarrow>
                 Partition_Merge B A (Inr M) \<Longrightarrow> J (add_mset M rest)"
  shows "\<exists>p. r = Inr p \<and> J {#p#} \<and> length (subsets p) = k \<and> Suc n = length nums"
  using run
proof (cases rule: KarmarkarKarp_steps.cases)
  case kk_empty
  with valid show ?thesis by simp
next
  case kk_zero
  with valid show ?thesis by simp
next
  case (kk_ctor_fail e)
  with emplace_all_ok [OF valid(2), of nums] show ?thesis by simp
next
  case (kk_run heap0 heap)
  let ?J = "\<lambda>H. J H \<and> (\<forall>p\<in>#H. length (subsets p) = k)"
  from kk_run(4) have ms: "mset heap = mset heap0" by (simp add: std_make_heap_def)
  from emplace_all_length [OF kk_run(3) valid(2)]
  have l0: "length heap0 = length nums" "\<forall>p\<in>#mset heap0. length (subsets p) = k" by simp_all
  have J0: "?J (mset heap)" unfolding ms using init [OF kk_run(3)] l0(2) by simp
  have "\<exists>p. r = Inr p \<and> ?J {#p#} \<and> Suc n = length heap"
    using kk_run(5) J0
  proof (rule while_loop_invariant)
    fix A B rest M
    assume a: "?J (add_mset A (add_mset B rest))" and m: "Partition_Merge B A (Inr M)"
    from a have len: "length (subsets A) = k" "length (subsets B) = k" by simp_all
    from a have "J (add_mset M rest)" using step [OF _ len m] by simp
    moreover have "length (subsets M) = k"
      using Partition_Merge_Inr(4) [OF m] len(2) by simp
    ultimately show "?J (add_mset M rest)" using a by simp
  next
    fix A B rest
    assume "?J (add_mset A (add_mset B rest))"
    then show "length (subsets B) = length (subsets A)" by simp
  qed
  moreover have "length heap = length nums"
    using arg_cong [OF ms, of size] l0(1) by simp
  ultimately show ?thesis by auto
qed

lemma loop_head_invariant:
  assumes "loop_head nums k heap"
    and init: "\<And>heap0. emplace_all nums k = Inr heap0 \<Longrightarrow> J (mset heap0)"
    and step: "\<And>A B rest M. J (add_mset A (add_mset B rest)) \<Longrightarrow>
                 length (subsets A) = k \<Longrightarrow> length (subsets B) = k \<Longrightarrow>
                 Partition_Merge B A (Inr M) \<Longrightarrow> J (add_mset M rest)"
  shows "J (mset heap) \<and> (\<forall>p\<in>set heap. length (subsets p) = k) \<and>
         is_heap DifferenceLess heap \<and> heap \<noteq> []"
  using assms(1)
proof (induction rule: loop_head.induct)
  case (head_first heap0 heap)
  from head_first(4) have ms: "mset heap = mset heap0" and hp: "is_heap DifferenceLess heap"
    by (simp_all add: std_make_heap_def)
  from emplace_all_length [OF head_first(3,2)]
  have l0: "length heap0 = length nums" "\<forall>p\<in>#mset heap0. length (subsets p) = k" by simp_all
  have "\<forall>p\<in>#mset heap. length (subsets p) = k" unfolding ms by (rule l0(2))
  moreover have "length heap = length nums"
    using arg_cong [OF ms, of size] l0(1) by simp
  moreover have "J (mset heap)" unfolding ms by (rule init [OF head_first(3)]) 
  ultimately show ?case using hp head_first(1) by auto
next
  case (head_next heap heap')
  from head_next(3) show ?case
  proof (cases rule: loop_body_decomp)
    case (ok A B rest M h')
    from ok(1) have h': "h' = heap'" by simp
    from head_next.IH have J: "J (mset heap)" and "\<forall>p\<in>#mset heap. length (subsets p) = k"
      by simp_all
    then have len: "length (subsets A) = k" "length (subsets B) = k"
      "\<forall>p\<in>#rest. length (subsets p) = k"
      unfolding ok(2) by simp_all
    have "J (mset heap')"
      unfolding ok(3) [unfolded h'] using J [unfolded ok(2)] len(1,2) ok(4) by (rule step)
    moreover have "length (subsets M) = k"
      using Partition_Merge_Inr(4) [OF ok(4)] len(2) by simp
    with len(3) have "\<forall>p\<in>#mset heap'. length (subsets p) = k"
      unfolding ok(3) [unfolded h'] by simp
    moreover have "heap' \<noteq> []" using ok(3) [unfolded h'] by auto
    ultimately show ?thesis using ok(5) [unfolded h'] by simp
  next
    case (fail A B rest)
    then show ?thesis by simp
  qed
qed

subsection \<open>Conservation\<close>

lemma KarmarkarKarp_run_valid:
  assumes "nums \<noteq> []" "k > 0"
  shows "KarmarkarKarp nums k (KarmarkarKarp_run nums k)"
  unfolding KarmarkarKarp_def using KarmarkarKarp_run_steps [OF assms] by blast

lemma Subset_empty_sel [simp]: "numbers Subset_empty = []" "sum_of Subset_empty = 0"
  by (simp_all add: Subset_empty_def)

lemma weights_first:
  "weights \<lparr>subsets = \<lparr>numbers = [n], sum_of = n\<rparr> # replicate m Subset_empty\<rparr> = {#n#}"
  by (simp add: weights_def)

lemma weights_emplace_all:
  assumes "emplace_all nums k = Inr heap0" "k > 0"
  shows "(\<Sum>p\<in>#mset heap0. weights p) = mset nums"
proof -
  have "(\<Sum>p\<in>#mset (map (\<lambda>n. \<lparr>subsets = \<lparr>numbers = [n], sum_of = n\<rparr> #
           replicate (k - 1) Subset_empty\<rparr>) nums). weights p) = mset nums"
    by (induction nums) (simp_all add: weights_first)
  with assms emplace_all_ok [OF assms(2), of nums] show ?thesis by simp
qed

text \<open>
  C1. For every non-empty sequence of numbers and every \<open>k \<ge> 1\<close>, every outcome of
  \<^verbatim>\<open>KarmarkarKarp\<close> is a partition, and the numbers in its subsets, taken together as
  a multiset, are exactly the numbers given: none is lost and none is duplicated.
\<close>

theorem KarmarkarKarp_conserves_weights:
  assumes "nums \<noteq> []" "k > 0" "KarmarkarKarp nums k r"
  shows "\<exists>p. r = Inr p \<and> weights p = mset nums"
proof -
  from assms(3) obtain n where run: "KarmarkarKarp_steps nums k n r"
    unfolding KarmarkarKarp_def by blast
  let ?J = "\<lambda>H. (\<Sum>p\<in>#H. weights p) = mset nums"
  have "\<exists>p. r = Inr p \<and> ?J {#p#} \<and> length (subsets p) = k \<and> Suc n = length nums"
    using run assms(1,2)
  proof (rule KarmarkarKarp_invariant)
    fix heap0 assume "emplace_all nums k = Inr heap0"
    then show "?J (mset heap0)" using assms(2) by (rule weights_emplace_all)
  next
    fix A B rest M
    assume "?J (add_mset A (add_mset B rest))" and "Partition_Merge B A (Inr M)"
    then show "?J (add_mset M rest)"
      using Partition_Merge_weights [of B A M] by (simp add: ac_simps)
  qed
  then show ?thesis by auto
qed

theorem KarmarkarKarp_conserves_weights_witness:
  "KarmarkarKarp [1, 2, 4] 2
     (Inr \<lparr>subsets = [\<lparr>numbers = [4], sum_of = 4\<rparr>, \<lparr>numbers = [1, 2], sum_of = 3\<rparr>]\<rparr>) \<and>
   weights \<lparr>subsets = [\<lparr>numbers = [4], sum_of = 4\<rparr>, \<lparr>numbers = [1, 2], sum_of = 3\<rparr>]\<rparr> =
     mset [1, 2, 4]"
proof -
  have ev: "KarmarkarKarp_run [1, 2, 4] 2 =
      Inr \<lparr>subsets = [\<lparr>numbers = [4], sum_of = 4\<rparr>, \<lparr>numbers = [1, 2], sum_of = 3\<rparr>]\<rparr>"
    by code_simp
  have run: "KarmarkarKarp [1, 2, 4] 2
      (Inr \<lparr>subsets = [\<lparr>numbers = [4], sum_of = 4\<rparr>, \<lparr>numbers = [1, 2], sum_of = 3\<rparr>]\<rparr>)"
    using KarmarkarKarp_run_valid [of "[1, 2, 4]" 2] unfolding ev by simp
  from KarmarkarKarp_conserves_weights [OF _ _ run] run show ?thesis by simp
qed

subsection \<open>Shapes, errors and progress\<close>

lemma loop_head_shape:
  assumes "loop_head nums k heap"
  shows "\<forall>p\<in>set heap. length (subsets p) = k" "is_heap DifferenceLess heap" "heap \<noteq> []"
  using loop_head_invariant [OF assms, of "\<lambda>_. True"] by simp_all

lemma loop_head_valid:
  assumes "loop_head nums k heap"
  shows "nums \<noteq> [] \<and> k > 0"
  using assms by (induction rule: loop_head.induct) simp_all

lemma KarmarkarKarp_steps_shape:
  assumes "KarmarkarKarp_steps nums k n r" "nums \<noteq> []" "k > 0"
  shows "\<exists>p. r = Inr p \<and> length (subsets p) = k \<and> Suc n = length nums"
  using KarmarkarKarp_invariant [OF assms, of "\<lambda>_. True"] by simp

lemma KarmarkarKarp_steps_invalid:
  assumes "KarmarkarKarp_steps nums k n r" "nums = [] \<or> k = 0"
  shows "n = 0 \<and> r = Inl InvalidInput"
  using assms
proof (cases rule: KarmarkarKarp_steps.cases)
  case (kk_ctor_fail e)
  with assms(2) show ?thesis by simp
next
  case (kk_run heap0 heap)
  with assms(2) show ?thesis by simp
qed simp_all

lemma KarmarkarKarp_invalid:
  assumes "nums = [] \<or> k = 0"
  shows "KarmarkarKarp_steps nums k 0 (Inl InvalidInput)"
proof (cases "nums = []")
  case True
  then show ?thesis by (rule kk_empty)
next
  case False
  moreover from False assms have "\<not> k > 0" by simp
  ultimately show ?thesis by (rule kk_zero)
qed

lemma loop_body_outcome:
  assumes "loop_body heap r" "\<forall>p\<in>set heap. length (subsets p) = k"
  shows "\<exists>heap'. r = Inr heap' \<and> Suc (length heap') = length heap"
  using assms(1)
proof (cases rule: loop_body_decomp)
  case (ok A B rest M h')
  from arg_cong [OF ok(2), of size] arg_cong [OF ok(3), of size]
  have "Suc (length h') = length heap" by simp
  with ok(1) show ?thesis by simp
next
  case (fail A B rest)
  from assms(2) have "\<forall>p\<in>#mset heap. length (subsets p) = k" by simp
  then have "length (subsets B) = length (subsets A)" unfolding fail(2) by simp
  with fail(3) show ?thesis by simp
qed

lemma Partition_Merge_no_error:
  "length (subsets self) = length (subsets other) \<Longrightarrow> \<not> Partition_Merge self other (Inl e)"
  by (simp add: Partition_Merge_def)

subsection \<open>A run on the numbers 1, 2, 4 with two subsets\<close>

lemma ex_Partition: "Partition 4 2 = Inr (single 4)"
  by (simp add: Partition_ok Subset_empty_def)

lemma ex_emplace_all: "emplace_all [1, 2, 4] 2 = Inr [single 1, single 2, single 4]"
  by (simp add: Partition_ok Subset_empty_def)

lemma ex_sorted_heap: "sorted_heap [single 1, single 2, single 4] = [single 4, single 2, single 1]"
  by code_simp

lemma ex_loop_head: "loop_head [1, 2, 4] 2 [single 4, single 2, single 1]"
proof -
  have "std_make_heap DifferenceLess [single 1, single 2, single 4] [single 4, single 2, single 1]"
    using sorted_heap [of "[single 1, single 2, single 4]"]
    unfolding ex_sorted_heap std_make_heap_def by simp
  with ex_emplace_all show ?thesis by (intro head_first) simp_all
qed

lemma ex_Partition_Merge: "Partition_Merge (single 2) (single 4) (Inr merged24)"
proof -
  have "run_Merge (single 2) (single 4) = merged24" by code_simp
  with run_Merge [of "single 2" "single 4"] show ?thesis by simp
qed

lemma ex_loop_body: "loop_body [single 4, single 2, single 1] (Inr [merged24, single 1])"
proof -
  have "run_body [single 4, single 2, single 1] = [merged24, single 1]" by code_simp
  with run_body [OF _ loop_head_shape(2,1) [OF ex_loop_head]] show ?thesis by simp
qed

lemma ex_steps: "KarmarkarKarp_steps [1, 2, 4] 2 2 (Inr result124)"
proof -
  have "KarmarkarKarp_run [1, 2, 4] 2 = Inr result124" by code_simp
  with KarmarkarKarp_run_steps [of "[1, 2, 4]" 2] show ?thesis by (simp add: numeral_2_eq_2)
qed

lemma ex_run: "KarmarkarKarp [1, 2, 4] 2 (Inr result124)"
  unfolding KarmarkarKarp_def using ex_steps by blast


text \<open>
  C5. The partition returned by \<^verbatim>\<open>KarmarkarKarp\<close> on a non-empty input with \<open>k \<ge> 1\<close>
  has exactly \<open>k\<close> subsets; and a partition has \<open>k\<close> subsets all its life: the
  constructor makes \<open>k\<close>, a merge of two partitions of \<open>k\<close> subsets leaves \<open>k\<close>, and
  every partition in the heap at the head of the loop has \<open>k\<close>.
\<close>

theorem partitions_keep_k_subsets:
  "(nums \<noteq> [] \<longrightarrow> k > 0 \<longrightarrow> KarmarkarKarp nums k r \<longrightarrow>
      (\<exists>p. r = Inr p \<and> length (subsets p) = k)) \<and>
   (Partition number k = Inr p0 \<longrightarrow> length (subsets p0) = k) \<and>
   (Partition_Merge self other (Inr m) \<longrightarrow> length (subsets self) = k \<longrightarrow>
      length (subsets other) = k \<and> length (subsets m) = k) \<and>
   (loop_head nums k heap \<longrightarrow> q \<in> set heap \<longrightarrow> length (subsets q) = k)"
proof (intro conjI impI)
  assume "nums \<noteq> []" "k > 0" "KarmarkarKarp nums k r"
  then show "\<exists>p. r = Inr p \<and> length (subsets p) = k"
    unfolding KarmarkarKarp_def using KarmarkarKarp_steps_shape by blast
next
  assume "Partition number k = Inr p0"
  then show "length (subsets p0) = k"
    by (auto simp: Partition_def Let_def split: if_splits)
next
  assume m: "Partition_Merge self other (Inr m)" and k: "length (subsets self) = k"
  from Partition_Merge_Inr(1) [OF m] k show "length (subsets other) = k" by simp
  from Partition_Merge_Inr(4) [OF m] k show "length (subsets m) = k" by simp
next
  assume "loop_head nums k heap" "q \<in> set heap"
  then show "length (subsets q) = k" using loop_head_shape(1) by blast
qed

theorem partitions_keep_k_subsets_witness:
  "KarmarkarKarp [1, 2, 4] 2 (Inr result124) \<and> length (subsets result124) = 2 \<and>
   Partition 4 2 = Inr (single 4) \<and> length (subsets (single 4)) = 2 \<and>
   Partition_Merge (single 2) (single 4) (Inr merged24) \<and> length (subsets merged24) = 2 \<and>
   loop_head [1, 2, 4] 2 [single 4, single 2, single 1] \<and> length (subsets (single 1)) = 2"
  using partitions_keep_k_subsets [where nums = "[1, 2, 4]" and k = 2 and r = "Inr result124"
      and number = 4 and ?p0.0 = "single 4" and self = "single 2" and other = "single 4"
      and m = merged24 and heap = "[single 4, single 2, single 1]" and q = "single 1"]
    ex_run ex_Partition ex_Partition_Merge ex_loop_head
  by simp

text \<open>
  C9. The assertion of \<^verbatim>\<open>Partition::Merge\<close> never fails in a run on a non-empty input
  with \<open>k \<ge> 1\<close>: the constructor calls make partitions of \<open>k\<close> subsets only, a merge of
  two partitions of equal size does not fail and gives a partition of that size, so
  every partition in the heap at the head of the loop has \<open>k\<close> subsets, no pass
  through the body ends in an error, and no run does.
\<close>

theorem ShapeMismatch_unreachable:
  "(emplace_all nums k = Inr heap0 \<longrightarrow> k > 0 \<longrightarrow> q0 \<in> set heap0 \<longrightarrow> length (subsets q0) = k) \<and>
   (length (subsets self) = length (subsets other) \<longrightarrow>
      \<not> Partition_Merge self other (Inl e) \<and>
      (Partition_Merge self other (Inr m) \<longrightarrow> length (subsets m) = length (subsets self))) \<and>
   (loop_head nums k heap \<longrightarrow>
      (q \<in> set heap \<longrightarrow> q' \<in> set heap \<longrightarrow> length (subsets q) = length (subsets q')) \<and>
      \<not> loop_body heap (Inl e)) \<and>
   (nums \<noteq> [] \<longrightarrow> k > 0 \<longrightarrow> \<not> KarmarkarKarp nums k (Inl e))"
proof (intro conjI impI)
  assume "emplace_all nums k = Inr heap0" "k > 0" "q0 \<in> set heap0"
  then show "length (subsets q0) = k" using emplace_all_length(2) by blast
next
  assume "length (subsets self) = length (subsets other)"
  then show "\<not> Partition_Merge self other (Inl e)" by (rule Partition_Merge_no_error)
next
  assume "Partition_Merge self other (Inr m)"
  then show "length (subsets m) = length (subsets self)" by (rule Partition_Merge_Inr(4))
next
  assume "loop_head nums k heap" "q \<in> set heap" "q' \<in> set heap"
  then show "length (subsets q) = length (subsets q')" using loop_head_shape(1) by metis
next
  assume "loop_head nums k heap"
  then have "\<forall>p\<in>set heap. length (subsets p) = k" by (rule loop_head_shape(1))
  then show "\<not> loop_body heap (Inl e)" using loop_body_outcome by blast
next
  assume "nums \<noteq> []" "k > 0"
  then show "\<not> KarmarkarKarp nums k (Inl e)"
    unfolding KarmarkarKarp_def using KarmarkarKarp_steps_shape by blast
qed

theorem ShapeMismatch_unreachable_witness:
  "emplace_all [1, 2, 4] 2 = Inr [single 1, single 2, single 4] \<and>
   length (subsets (single 2)) = 2 \<and>
   \<not> Partition_Merge (single 2) (single 4) (Inl ShapeMismatch) \<and>
   Partition_Merge (single 2) (single 4) (Inr merged24) \<and>
   length (subsets merged24) = length (subsets (single 2)) \<and>
   loop_head [1, 2, 4] 2 [single 4, single 2, single 1] \<and>
   length (subsets (single 4)) = length (subsets (single 2)) \<and>
   \<not> loop_body [single 4, single 2, single 1] (Inl ShapeMismatch) \<and>
   \<not> KarmarkarKarp [1, 2, 4] 2 (Inl ShapeMismatch)"
  using ShapeMismatch_unreachable [where nums = "[1, 2, 4]" and k = 2
      and ?heap0.0 = "[single 1, single 2, single 4]" and ?q0.0 = "single 2"
      and self = "single 2" and other = "single 4" and e = ShapeMismatch and m = merged24
      and heap = "[single 4, single 2, single 1]" and q = "single 4" and q' = "single 2"]
    ex_emplace_all ex_Partition_Merge ex_loop_head
  by simp

text \<open>
  C7. \<^verbatim>\<open>KarmarkarKarp\<close> fails with \<open>InvalidInput\<close> exactly when the numbers are empty or
  \<open>k = 0\<close>; then it fails before any merge step, and that is its only outcome. On any
  other input it has an outcome, and every outcome is a partition: no error arises.
\<close>

theorem InvalidInput_exactly_on_degenerate_input:
  "(KarmarkarKarp nums k (Inl InvalidInput) \<longleftrightarrow> nums = [] \<or> k = 0) \<and>
   (nums = [] \<or> k = 0 \<longrightarrow> KarmarkarKarp_steps nums k n r \<longrightarrow> n = 0 \<and> r = Inl InvalidInput) \<and>
   (nums \<noteq> [] \<longrightarrow> k > 0 \<longrightarrow>
      (\<exists>p. KarmarkarKarp nums k (Inr p)) \<and> (KarmarkarKarp nums k r' \<longrightarrow> (\<exists>p. r' = Inr p)))"
proof (intro conjI impI iffI)
  assume "KarmarkarKarp nums k (Inl InvalidInput)"
  then obtain n where "KarmarkarKarp_steps nums k n (Inl InvalidInput)"
    unfolding KarmarkarKarp_def by blast
  then show "nums = [] \<or> k = 0" using KarmarkarKarp_steps_shape [of nums k n "Inl InvalidInput"] by auto
next
  assume "nums = [] \<or> k = 0"
  then show "KarmarkarKarp nums k (Inl InvalidInput)"
    unfolding KarmarkarKarp_def using KarmarkarKarp_invalid by blast
next
  assume "nums = [] \<or> k = 0" "KarmarkarKarp_steps nums k n r"
  then show "n = 0" "r = Inl InvalidInput" using KarmarkarKarp_steps_invalid by blast+
next
  assume v: "nums \<noteq> []" "k > 0"
  from KarmarkarKarp_run_steps [OF v] KarmarkarKarp_steps_shape [OF _ v]
  show "\<exists>p. KarmarkarKarp nums k (Inr p)" unfolding KarmarkarKarp_def by metis
  assume "KarmarkarKarp nums k r'"
  then show "\<exists>p. r' = Inr p"
    unfolding KarmarkarKarp_def using KarmarkarKarp_steps_shape [OF _ v] by blast
qed

theorem InvalidInput_exactly_on_degenerate_input_witness:
  "KarmarkarKarp [] 2 (Inl InvalidInput) \<and> KarmarkarKarp [1, 2, 4] 0 (Inl InvalidInput) \<and>
   KarmarkarKarp_steps [1, 2, 4] 0 0 (Inl InvalidInput) \<and>
   \<not> KarmarkarKarp [1, 2, 4] 2 (Inl InvalidInput) \<and>
   KarmarkarKarp [1, 2, 4] 2 (Inr result124)"
proof -
  have a: "KarmarkarKarp [] 2 (Inl InvalidInput)"
    using InvalidInput_exactly_on_degenerate_input [where nums = "[]" and k = 2] by simp
  have b: "KarmarkarKarp [1, 2, 4] 0 (Inl InvalidInput)"
    using InvalidInput_exactly_on_degenerate_input [where nums = "[1, 2, 4]" and k = 0] by simp
  have c: "KarmarkarKarp_steps [1, 2, 4] 0 0 (Inl InvalidInput)"
    using KarmarkarKarp_invalid [of "[1, 2, 4]" 0] by simp
  have d: "\<not> KarmarkarKarp [1, 2, 4] 2 (Inl InvalidInput)"
    using InvalidInput_exactly_on_degenerate_input [where nums = "[1, 2, 4]" and k = 2] by simp
  from a b c d ex_run show ?thesis by simp
qed

subsection \<open>Termination and the merge order\<close>

lemma loop_head_progress:
  assumes "loop_head nums k heap" "length heap > 1"
  shows "loop_body heap (Inr (run_body heap))"
  using assms(2) loop_head_shape(2,1) [OF assms(1)] by (rule run_body)

text \<open>
  C4. On a non-empty input of \<open>N\<close> numbers with \<open>k \<ge> 1\<close> the loop terminates: a run
  exists, every run makes exactly \<open>N - 1\<close> merge steps and ends with a partition; at
  every head of the loop with more than one partition a pass through the body is
  possible, and every pass leaves exactly one partition less; when the loop ends
  exactly one partition remains; and the passes cannot go on forever.
\<close>

theorem loop_ends_after_N_minus_1_merges:
  assumes "nums \<noteq> []" "k > 0"
  shows "(\<exists>r. KarmarkarKarp_steps nums k (length nums - 1) r) \<and>
         (KarmarkarKarp_steps nums k n r \<longrightarrow> n = length nums - 1 \<and> (\<exists>p. r = Inr p)) \<and>
         (loop_head nums k heap \<longrightarrow> length heap > 1 \<longrightarrow>
            (\<exists>heap'. loop_body heap (Inr heap')) \<and>
            (loop_body heap r' \<longrightarrow> (\<exists>heap'. r' = Inr heap' \<and> Suc (length heap') = length heap))) \<and>
         (loop_head nums k heap \<longrightarrow> \<not> length heap > 1 \<longrightarrow> length heap = 1) \<and>
         wf {(heap', heap). loop_head nums k heap \<and> length heap > 1 \<and> loop_body heap (Inr heap')}"
proof (intro conjI impI)
  from KarmarkarKarp_run_steps [OF assms]
  show "\<exists>r. KarmarkarKarp_steps nums k (length nums - 1) r" by blast
next
  assume "KarmarkarKarp_steps nums k n r"
  from KarmarkarKarp_steps_shape [OF this assms]
  show "n = length nums - 1" "\<exists>p. r = Inr p" by auto
next
  assume "loop_head nums k heap" "length heap > 1"
  then show "\<exists>heap'. loop_body heap (Inr heap')" using loop_head_progress by blast
next
  assume "loop_head nums k heap" "loop_body heap r'"
  then show "\<exists>heap'. r' = Inr heap' \<and> Suc (length heap') = length heap"
    using loop_body_outcome loop_head_shape(1) by blast
next
  assume "loop_head nums k heap" "\<not> length heap > 1"
  with loop_head_shape(3) [of nums k heap] show "length heap = 1"
    by (cases heap) auto
next
  have "{(heap', heap). loop_head nums k heap \<and> length heap > 1 \<and> loop_body heap (Inr heap')}
          \<subseteq> measure length"
  proof (clarify)
    fix heap' heap
    assume "loop_head nums k heap" "loop_body heap (Inr heap')"
    then have "Suc (length heap') = length heap"
      using loop_body_outcome loop_head_shape(1) by blast
    then show "(heap', heap) \<in> measure length" by simp
  qed
  then show "wf {(heap', heap). loop_head nums k heap \<and> length heap > 1 \<and> loop_body heap (Inr heap')}"
    by (rule wf_subset [OF wf_measure])
qed

theorem loop_ends_after_N_minus_1_merges_witness:
  "KarmarkarKarp_steps [1, 2, 4] 2 2 (Inr result124) \<and> (2::nat) = length [1, 2, 4 :: number] - 1 \<and>
   loop_head [1, 2, 4] 2 [single 4, single 2, single 1] \<and>
   loop_body [single 4, single 2, single 1] (Inr [merged24, single 1]) \<and>
   Suc (length [merged24, single 1]) = length [single 4, single 2, single 1]"
  using loop_ends_after_N_minus_1_merges [where nums = "[1, 2, 4]" and k = 2 and n = 2
      and r = "Inr result124" and heap = "[single 4, single 2, single 1]"
      and r' = "Inr [merged24, single 1]"]
    ex_steps ex_loop_head ex_loop_body
  by simp

text \<open>
  C3. At every head of the loop with more than one partition a pass through the body
  is possible, and every pass takes out a partition \<open>A\<close> whose \<open>difference\<close> is the
  largest in the heap, then a partition \<open>B\<close> whose \<open>difference\<close> is the largest among
  the others; \<open>B\<close> absorbs \<open>A\<close> (\<^verbatim>\<open>B.Merge(A)\<close>), and the heap after the pass holds the
  merged partition and the others, arranged as a heap again.
\<close>

theorem loop_body_merges_two_largest:
  assumes "loop_head nums k heap" "length heap > 1"
  shows "(\<exists>heap'. loop_body heap (Inr heap')) \<and>
         (loop_body heap r \<longrightarrow>
            (\<exists>A B rest M heap'. r = Inr heap' \<and> A = hd heap \<and>
               mset heap = add_mset A (add_mset B rest) \<and>
               (\<forall>p\<in>#mset heap. difference p \<le> difference A) \<and>
               (\<forall>p\<in>#add_mset B rest. difference p \<le> difference B) \<and>
               Partition_Merge B A (Inr M) \<and>
               mset heap' = add_mset M rest \<and> is_heap DifferenceLess heap'))"
proof (intro conjI impI)
  from assms show "\<exists>heap'. loop_body heap (Inr heap')" using loop_head_progress by blast
next
  assume "loop_body heap r"
  then show "\<exists>A B rest M heap'. r = Inr heap' \<and> A = hd heap \<and>
               mset heap = add_mset A (add_mset B rest) \<and>
               (\<forall>p\<in>#mset heap. difference p \<le> difference A) \<and>
               (\<forall>p\<in>#add_mset B rest. difference p \<le> difference B) \<and>
               Partition_Merge B A (Inr M) \<and>
               mset heap' = add_mset M rest \<and> is_heap DifferenceLess heap'"
  proof (cases rule: loop_body_decomp)
    case (ok A B rest M h')
    then show ?thesis by blast
  next
    case (fail A B rest)
    from loop_head_shape(1) [OF assms(1)] have "\<forall>p\<in>#mset heap. length (subsets p) = k" by simp
    then have "length (subsets B) = length (subsets A)" unfolding fail(2) by simp
    with fail(3) show ?thesis by simp
  qed
qed

theorem loop_body_merges_two_largest_witness:
  "loop_head [1, 2, 4] 2 [single 4, single 2, single 1] \<and>
   1 < length [single 4, single 2, single 1] \<and>
   loop_body [single 4, single 2, single 1] (Inr [merged24, single 1]) \<and>
   (\<exists>A B rest M heap'. Inr [merged24, single 1] = (Inr heap' :: error + partition list) \<and>
      A = hd [single 4, single 2, single 1] \<and>
      mset [single 4, single 2, single 1] = add_mset A (add_mset B rest) \<and>
      (\<forall>p\<in>#mset [single 4, single 2, single 1]. difference p \<le> difference A) \<and>
      (\<forall>p\<in>#add_mset B rest. difference p \<le> difference B) \<and>
      Partition_Merge B A (Inr M) \<and>
      mset heap' = add_mset M rest \<and> is_heap DifferenceLess heap')"
proof -
  have "1 < length [single 4, single 2, single 1]" by simp
  from loop_body_merges_two_largest [OF ex_loop_head this, of "Inr [merged24, single 1]"]
    ex_loop_head ex_loop_body this
  show ?thesis by blast
qed

subsection \<open>The pairing and the order of the subsets\<close>

lemma map2_rev_nth:
  assumes "length xs = k" "length ys = k"
  shows "map2 f xs (rev ys) = map (\<lambda>i. f (xs ! i) (ys ! (k - 1 - i))) [0..<k]"
  using assms by (intro nth_equalityI) (simp_all add: rev_nth)

lemma descending_first:
  "descending \<lparr>subsets = \<lparr>numbers = [n], sum_of = n\<rparr> # replicate m Subset_empty\<rparr>"
  by (simp add: descending_def sorted_wrt_iff_nth_less)

lemma sums_cached_first:
  "sums_cached \<lparr>subsets = \<lparr>numbers = [n], sum_of = n\<rparr> # replicate m Subset_empty\<rparr>"
  by (simp add: sums_cached_def list_all_iff)

lemma Partition_Merge_descending:
  "Partition_Merge self other (Inr m) \<Longrightarrow> descending m"
  unfolding descending_def by (rule Partition_Merge_Inr(3))

lemma Partition_Merge_sums_cached:
  assumes "Partition_Merge self other (Inr m)" "sums_cached self" "sums_cached other"
  shows "sums_cached m"
proof -
  have "sum_of s = sum_list (numbers s)" if "s \<in> set (subsets m)" for s
  proof -
    from that have "s \<in># mset (subsets m)" by simp
    then have "s \<in> set (map2 Subset_Merge (subsets self) (rev (subsets other)))"
      unfolding Partition_Merge_Inr(2) [OF assms(1)] by simp
    then obtain a b where z: "(a, b) \<in> set (zip (subsets self) (rev (subsets other)))"
      and s: "s = Subset_Merge a b"
      by auto
    from set_zip_leftD [OF z] set_zip_rightD [OF z] s
    have ab: "s = Subset_Merge a b" "a \<in> set (subsets self)" "b \<in> set (subsets other)"
      by simp_all
    with assms(2,3) show ?thesis
      by (simp add: sums_cached_def list_all_iff Subset_Merge_def)
  qed
  then show ?thesis by (simp add: sums_cached_def list_all_iff)
qed

lemma ordered_emplace_all:
  assumes "emplace_all nums k = Inr heap0"
  shows "\<forall>p\<in>#mset heap0. descending p \<and> sums_cached p"
proof (cases "k > 0")
  case True
  from assms emplace_all_ok [OF True, of nums] show ?thesis
    by (auto simp: descending_first sums_cached_first)
next
  case False
  with assms have "heap0 = []" by (cases nums) (simp_all add: Partition_def)
  then show ?thesis by simp
qed

text \<open>
  C2. \<^verbatim>\<open>Partition::Merge\<close> on two partitions of \<open>k\<close> subsets has an outcome, and every
  outcome is a partition whose subsets are, up to their order, the \<open>k\<close> pairs
  \<open>subsets self ! i\<close> absorbing \<open>subsets other ! (k - 1 - i)\<close>, and stand in descending
  order of their sums. Both partitions being in descending order, \<open>subsets self ! i\<close>
  is no lighter than the subsets of \<open>self\<close> after it and \<open>subsets other ! (k - 1 - i)\<close>
  no heavier than the subsets of \<open>other\<close> before it: the heaviest is paired with the
  lightest, the second heaviest with the second lightest, and so on.
\<close>

theorem Merge_pairs_heaviest_with_lightest:
  assumes "length (subsets self) = k" "length (subsets other) = k"
    and "descending self" "descending other"
  shows "(\<exists>p. Partition_Merge self other (Inr p)) \<and>
         (Partition_Merge self other r \<longrightarrow>
            (\<exists>p. r = Inr p \<and>
               mset (subsets p) =
                 mset (map (\<lambda>i. Subset_Merge (subsets self ! i) (subsets other ! (k - 1 - i))) [0..<k]) \<and>
               descending p)) \<and>
         (i \<le> j \<longrightarrow> j < k \<longrightarrow>
            sum_of (subsets self ! j) \<le> sum_of (subsets self ! i) \<and>
            sum_of (subsets other ! (k - 1 - i)) \<le> sum_of (subsets other ! (k - 1 - j)))"
proof (intro conjI impI)
  from assms(1,2) show "\<exists>p. Partition_Merge self other (Inr p)"
    using run_Merge [of self other] by auto
next
  assume m: "Partition_Merge self other r"
  show "\<exists>p. r = Inr p \<and>
          mset (subsets p) =
            mset (map (\<lambda>i. Subset_Merge (subsets self ! i) (subsets other ! (k - 1 - i))) [0..<k]) \<and>
          descending p"
  proof (cases r)
    case (Inl e)
    with m assms(1,2) show ?thesis by (simp add: Partition_Merge_def)
  next
    case (Inr p)
    from m have mp: "Partition_Merge self other (Inr p)" unfolding Inr .
    have "mset (subsets p) =
            mset (map (\<lambda>i. Subset_Merge (subsets self ! i) (subsets other ! (k - 1 - i))) [0..<k])"
      unfolding Partition_Merge_Inr(2) [OF mp] map2_rev_nth [OF assms(1,2)] ..
    with Inr Partition_Merge_descending [OF mp] show ?thesis by simp
  qed
next
  assume ij: "i \<le> j" "j < k"
  show "sum_of (subsets self ! j) \<le> sum_of (subsets self ! i)"
  proof (cases "i = j")
    case False
    with ij assms(1,3) show ?thesis by (simp add: descending_def sorted_wrt_iff_nth_less)
  qed simp
  show "sum_of (subsets other ! (k - 1 - i)) \<le> sum_of (subsets other ! (k - 1 - j))"
  proof (cases "i = j")
    case False
    with ij have "k - 1 - j < k - 1 - i" "k - 1 - i < k" by simp_all
    with assms(2,4) show ?thesis by (simp add: descending_def sorted_wrt_iff_nth_less)
  qed simp
qed

theorem Merge_pairs_heaviest_with_lightest_witness:
  "descending (single 2) \<and> descending (single 4) \<and>
   Partition_Merge (single 2) (single 4) (Inr merged24) \<and>
   mset (subsets merged24) =
     mset (map (\<lambda>i. Subset_Merge (subsets (single 2) ! i) (subsets (single 4) ! (2 - 1 - i))) [0..<2]) \<and>
   descending merged24 \<and>
   sum_of (subsets (single 2) ! 1) \<le> sum_of (subsets (single 2) ! 0) \<and>
   sum_of (subsets (single 4) ! (2 - 1 - 0)) \<le> sum_of (subsets (single 4) ! (2 - 1 - 1))"
proof -
  have d: "descending (single 2)" "descending (single 4)"
    by (simp_all add: descending_def)
  from Merge_pairs_heaviest_with_lightest [where self = "single 2" and other = "single 4"
      and k = 2 and r = "Inr merged24" and i = 0 and j = 1, OF _ _ d] d ex_Partition_Merge
  show ?thesis by simp
qed

text \<open>
  C6. The subsets of a partition stand in descending order of their sums after every
  change: in the partition the constructor makes, in the partition every merge
  leaves, in every partition of the heap at the head of the loop, and in the result
  of \<^verbatim>\<open>KarmarkarKarp\<close>. The sum is the member \<^verbatim>\<open>sum_\<close>, which is in all of them the sum of
  the subset's numbers modulo \<open>2^64\<close>.
\<close>

theorem partitions_stay_descending:
  "(Partition number k = Inr p0 \<longrightarrow> descending p0 \<and> sums_cached p0) \<and>
   (Partition_Merge self other (Inr m) \<longrightarrow>
      descending m \<and> (sums_cached self \<longrightarrow> sums_cached other \<longrightarrow> sums_cached m)) \<and>
   (loop_head nums k heap \<longrightarrow> q \<in> set heap \<longrightarrow> descending q \<and> sums_cached q) \<and>
   (KarmarkarKarp nums k (Inr p) \<longrightarrow> descending p \<and> sums_cached p)"
proof (intro conjI impI)
  assume "Partition number k = Inr p0"
  then have "k > 0" "p0 = \<lparr>subsets = \<lparr>numbers = [number], sum_of = number\<rparr> # replicate (k - 1) Subset_empty\<rparr>"
    using Partition_ok [of k number] by (cases "k > 0"; simp add: Partition_def)+
  then show "descending p0" "sums_cached p0"
    by (simp_all add: descending_first sums_cached_first)
next
  assume "Partition_Merge self other (Inr m)"
  then show "descending m" by (rule Partition_Merge_descending)
next
  assume "Partition_Merge self other (Inr m)" "sums_cached self" "sums_cached other"
  then show "sums_cached m" by (rule Partition_Merge_sums_cached)
next
  assume h: "loop_head nums k heap" and q: "q \<in> set heap"
  have "(\<forall>p\<in>#mset heap. descending p \<and> sums_cached p) \<and> (\<forall>p\<in>set heap. length (subsets p) = k) \<and>
        is_heap DifferenceLess heap \<and> heap \<noteq> []"
    using h
  proof (rule loop_head_invariant)
    fix A B rest M
    assume "\<forall>p\<in>#add_mset A (add_mset B rest). descending p \<and> sums_cached p"
      and "Partition_Merge B A (Inr M)"
    then show "\<forall>p\<in>#add_mset M rest. descending p \<and> sums_cached p"
      using Partition_Merge_descending [of B A M] Partition_Merge_sums_cached [of B A M] by simp
  qed (rule ordered_emplace_all)
  with q show "descending q" "sums_cached q" by simp_all
next
  assume "KarmarkarKarp nums k (Inr p)"
  then obtain n where run: "KarmarkarKarp_steps nums k n (Inr p)"
    unfolding KarmarkarKarp_def by blast
  then have valid: "nums \<noteq> []" "k > 0"
    using KarmarkarKarp_steps_invalid [of nums k n "Inr p"] by auto
  have "\<exists>p'. Inr p = (Inr p' :: error + partition) \<and> (\<forall>q\<in>#{#p'#}. descending q \<and> sums_cached q) \<and>
          length (subsets p') = k \<and> Suc n = length nums"
    using run valid
  proof (rule KarmarkarKarp_invariant)
    fix A B rest M
    assume "\<forall>p\<in>#add_mset A (add_mset B rest). descending p \<and> sums_cached p"
      and "Partition_Merge B A (Inr M)"
    then show "\<forall>p\<in>#add_mset M rest. descending p \<and> sums_cached p"
      using Partition_Merge_descending [of B A M] Partition_Merge_sums_cached [of B A M] by simp
  qed (rule ordered_emplace_all)
  then show "descending p" "sums_cached p" by simp_all
qed

theorem partitions_stay_descending_witness:
  "Partition 4 2 = Inr (single 4) \<and> descending (single 4) \<and> sums_cached (single 4) \<and>
   Partition_Merge (single 2) (single 4) (Inr merged24) \<and> descending merged24 \<and>
   sums_cached merged24 \<and>
   loop_head [1, 2, 4] 2 [single 4, single 2, single 1] \<and> descending (single 1) \<and>
   sums_cached (single 1) \<and>
   KarmarkarKarp [1, 2, 4] 2 (Inr result124) \<and> descending result124 \<and> sums_cached result124"
proof -
  have s: "sums_cached (single 2)" "sums_cached (single 4)"
    by (simp_all add: sums_cached_def)
  from partitions_stay_descending [where number = 4 and k = 2 and ?p0.0 = "single 4"
      and self = "single 2" and other = "single 4" and m = merged24 and nums = "[1, 2, 4]"
      and heap = "[single 4, single 2, single 1]" and q = "single 1" and p = result124]
    s ex_Partition ex_Partition_Merge ex_loop_head ex_run
  show ?thesis by simp
qed

subsection \<open>Few numbers: every number in a subset of its own\<close>

lemma alone_cases:
  assumes "alone s"
  obtains (empty) "numbers s = []" "sum_of s = 0"
        | (one) w where "numbers s = [w]" "sum_of s = w" "w \<noteq> 0"
  using assms unfolding alone_def by (auto split: list.splits)

lemma alone_empty_iff: "alone s \<Longrightarrow> numbers s = [] \<longleftrightarrow> sum_of s = 0"
  by (erule alone_cases) simp_all

lemma alone_Subset_Merge:
  assumes "alone a" "alone b" "numbers a = [] \<or> numbers b = []"
  shows "alone (Subset_Merge a b)"
  using assms(3)
proof
  assume "numbers a = []"
  moreover with assms(1) have "sum_of a = 0" by (simp add: alone_empty_iff)
  ultimately show ?thesis using assms(2)
    by (auto simp: alone_def Subset_Merge_def split: list.splits)
next
  assume "numbers b = []"
  moreover with assms(2) have "sum_of b = 0" by (simp add: alone_empty_iff)
  ultimately show ?thesis using assms(1)
    by (auto simp: alone_def Subset_Merge_def split: list.splits)
qed

lemma alone_count: "list_all alone xs \<Longrightarrow> length (concat (map numbers xs)) \<le> length xs"
proof (induction xs)
  case (Cons x xs)
  from Cons.prems have "alone x" by simp
  then have "length (numbers x) \<le> 1" by (rule alone_cases) simp_all
  with Cons show ?case by simp
qed simp

lemma alone_front:
  assumes "list_all alone xs" "sorted_wrt (\<lambda>a b. sum_of b \<le> sum_of a) xs"
  shows "i < length xs \<Longrightarrow> numbers (xs ! i) \<noteq> [] \<longleftrightarrow> i < length (concat (map numbers xs))"
  using assms
proof (induction xs arbitrary: i)
  case Nil
  then show ?case by simp
next
  case (Cons x xs)
  from Cons.prems have x: "alone x" and xs: "list_all alone xs"
    and le: "\<forall>y\<in>set xs. sum_of y \<le> sum_of x"
    and srt: "sorted_wrt (\<lambda>a b. sum_of b \<le> sum_of a) xs"
    by simp_all
  from x show ?case
  proof (cases rule: alone_cases)
    case empty
    have "numbers y = []" if "y \<in> set xs" for y
    proof -
      from that le empty(2) have "sum_of y = 0" by simp
      moreover from that xs have "alone y" by (simp add: list_all_iff)
      ultimately show ?thesis by (simp add: alone_empty_iff)
    qed
    then have all: "\<forall>y\<in>set (x # xs). numbers y = []" using empty(1) by simp
    then have "length (concat (map numbers (x # xs))) = 0" by simp
    moreover from all Cons.prems(1) have "numbers ((x # xs) ! i) = []"
      using nth_mem by blast
    ultimately show ?thesis by (simp only: not_less_zero simp_thms)
  next
    case (one w)
    show ?thesis
    proof (cases i)
      case 0
      with one show ?thesis by simp
    next
      case (Suc i')
      with Cons.prems(1) have "i' < length xs" by simp
      from Cons.IH [OF this xs srt] Suc one show ?thesis by simp
    qed
  qed
qed

lemma size_weights: "size (weights p) = length (concat (map numbers (subsets p)))"
  by (simp add: weights_def)

lemma Partition_Merge_each_alone:
  assumes "each_alone B" "descending B" "each_alone A" "descending A"
    and "length (subsets A) = k" "length (subsets B) = k"
    and "size (weights A) + size (weights B) \<le> k"
    and "Partition_Merge B A (Inr M)"
  shows "each_alone M"
proof -
  let ?xs = "subsets B" and ?ys = "subsets A"
  let ?zs = "map (\<lambda>i. Subset_Merge (?xs ! i) (?ys ! (k - 1 - i))) [0..<k]"
  have ms: "mset (subsets M) = mset ?zs"
    unfolding Partition_Merge_Inr(2) [OF assms(8)] map2_rev_nth [OF assms(6,5)] ..
  have "alone (Subset_Merge (?xs ! i) (?ys ! (k - 1 - i)))" if "i < k" for i
  proof -
    from that have j: "k - 1 - i < k" by simp
    from that assms(1,6) have ax: "alone (?xs ! i)" by (simp add: each_alone_def list_all_length)
    from j assms(3,5) have ay: "alone (?ys ! (k - 1 - i))" by (simp add: each_alone_def list_all_length)
    have fx: "numbers (?xs ! i) \<noteq> [] \<longleftrightarrow> i < size (weights B)"
      unfolding size_weights using assms(1,2,6) that
      by (intro alone_front) (simp_all add: each_alone_def descending_def)
    have fy: "numbers (?ys ! (k - 1 - i)) \<noteq> [] \<longleftrightarrow> k - 1 - i < size (weights A)"
      unfolding size_weights using assms(3,4,5) j
      by (intro alone_front) (simp_all add: each_alone_def descending_def)
    from fx fy assms(7) that have "numbers (?xs ! i) = [] \<or> numbers (?ys ! (k - 1 - i)) = []"
      by (cases "numbers (?xs ! i) = []"; cases "numbers (?ys ! (k - 1 - i)) = []") auto
    with ax ay show ?thesis by (rule alone_Subset_Merge)
  qed
  then have "\<forall>s\<in>set ?zs. alone s" by auto
  then have "\<forall>s\<in>#mset ?zs. alone s" by simp
  then have "\<forall>s\<in>#mset (subsets M). alone s" unfolding ms .
  then show ?thesis by (simp add: each_alone_def list_all_iff)
qed

lemma each_alone_first:
  "n \<noteq> 0 \<Longrightarrow> each_alone \<lparr>subsets = \<lparr>numbers = [n], sum_of = n\<rparr> # replicate m Subset_empty\<rparr>"
  by (simp add: each_alone_def alone_def list_all_iff)

lemma few_emplace_all:
  assumes "emplace_all nums k = Inr heap0" "k > 0" "\<forall>w\<in>set nums. w \<noteq> 0"
  shows "\<forall>p\<in>#mset heap0. each_alone p \<and> descending p"
    and "(\<Sum>p\<in>#mset heap0. size (weights p)) = length nums"
proof -
  let ?f = "\<lambda>n. \<lparr>subsets = \<lparr>numbers = [n], sum_of = n\<rparr> # replicate (k - 1) Subset_empty\<rparr>"
  from assms(1) emplace_all_ok [OF assms(2), of nums] have h: "heap0 = map ?f nums" by simp
  from assms(3) show "\<forall>p\<in>#mset heap0. each_alone p \<and> descending p"
    unfolding h by (auto simp: each_alone_first descending_first)
  show "(\<Sum>p\<in>#mset heap0. size (weights p)) = length nums"
    unfolding h by (induction nums) (simp_all add: weights_first)
qed

lemma KarmarkarKarp_few:
  assumes "KarmarkarKarp_steps nums k n (Inr p)" "length nums \<le> k" "\<forall>w\<in>set nums. w \<noteq> 0"
  shows "each_alone p"
proof -
  from assms(1) have valid: "nums \<noteq> []" "k > 0"
    using KarmarkarKarp_steps_invalid [of nums k n "Inr p"] by auto
  let ?J = "\<lambda>H. (\<forall>p\<in>#H. each_alone p \<and> descending p) \<and> (\<Sum>p\<in>#H. size (weights p)) \<le> k"
  have "\<exists>p'. Inr p = (Inr p' :: error + partition) \<and> ?J {#p'#} \<and>
          length (subsets p') = k \<and> Suc n = length nums"
    using assms(1) valid
  proof (rule KarmarkarKarp_invariant)
    fix heap0 assume "emplace_all nums k = Inr heap0"
    from few_emplace_all [OF this valid(2) assms(3)] assms(2) show "?J (mset heap0)" by simp
  next
    fix A B rest M
    assume J: "?J (add_mset A (add_mset B rest))"
      and len: "length (subsets A) = k" "length (subsets B) = k"
      and m: "Partition_Merge B A (Inr M)"
    from J have ab: "each_alone A" "descending A" "each_alone B" "descending B"
      and few: "size (weights A) + size (weights B) \<le> k"
      by simp_all
    have "each_alone M"
      using ab(3,4,1,2) len few m by (rule Partition_Merge_each_alone)
    moreover have "descending M" using m by (rule Partition_Merge_descending)
    moreover have "size (weights M) = size (weights B) + size (weights A)"
      unfolding Partition_Merge_weights [OF m] by simp
    ultimately show "?J (add_mset M rest)" using J by simp
  qed
  then show ?thesis by simp
qed

lemma KarmarkarKarp_weights:
  assumes "KarmarkarKarp_steps nums k n (Inr p)"
  shows "weights p = mset nums" "length (subsets p) = k" "k > 0" "sums_cached p"
proof -
  from assms have valid: "nums \<noteq> []" "k > 0"
    using KarmarkarKarp_steps_invalid [of nums k n "Inr p"] by auto
  let ?J = "\<lambda>H. (\<Sum>p\<in>#H. weights p) = mset nums \<and> (\<forall>p\<in>#H. descending p \<and> sums_cached p)"
  have "\<exists>p'. Inr p = (Inr p' :: error + partition) \<and> ?J {#p'#} \<and>
          length (subsets p') = k \<and> Suc n = length nums"
    using assms valid
  proof (rule KarmarkarKarp_invariant)
    fix heap0 assume "emplace_all nums k = Inr heap0"
    then show "?J (mset heap0)"
      using weights_emplace_all [OF _ valid(2)] ordered_emplace_all by blast
  next
    fix A B rest M
    assume "?J (add_mset A (add_mset B rest))" and "Partition_Merge B A (Inr M)"
    then show "?J (add_mset M rest)"
      using Partition_Merge_weights [of B A M] Partition_Merge_descending [of B A M]
        Partition_Merge_sums_cached [of B A M]
      by (simp add: ac_simps)
  qed
  then show "weights p = mset nums" "length (subsets p) = k" "sums_cached p" by simp_all
  show "k > 0" by (rule valid(2))
qed

lemma ex_run12: "KarmarkarKarp [1, 2] 2 (Inr result12)"
proof -
  have "KarmarkarKarp_run [1, 2] 2 = Inr result12" by code_simp
  with KarmarkarKarp_run_valid [of "[1, 2]" 2] show ?thesis by simp
qed

lemma ex_Partition_Merge12: "Partition_Merge (single 1) (single 2) (Inr result12)"
proof -
  have "run_Merge (single 1) (single 2) = result12" by code_simp
  with run_Merge [of "single 1" "single 2"] show ?thesis by simp
qed

text \<open>
  C10, as the code has it. When the numbers are at most \<open>k\<close> and none of them is 0,
  every subset of the result of \<^verbatim>\<open>KarmarkarKarp\<close> holds at most one number, and the
  subsets hold exactly the numbers given: every number is alone in a subset of its
  own. The reason is the pairing: when two partitions of \<open>k\<close> subsets, each in
  descending order and with every subset empty or holding one number that is not 0,
  hold at most \<open>k\<close> numbers together, every subset of their merge is empty or holds one
  number.
\<close>

theorem few_positive_numbers_each_alone:
  "(length nums \<le> k \<longrightarrow> (\<forall>w\<in>set nums. w \<noteq> 0) \<longrightarrow> KarmarkarKarp nums k (Inr p) \<longrightarrow>
      (s \<in> set (subsets p) \<longrightarrow> length (numbers s) \<le> 1) \<and>
      weights p = mset nums \<and> length (subsets p) = k) \<and>
   (each_alone B \<longrightarrow> descending B \<longrightarrow> each_alone A \<longrightarrow> descending A \<longrightarrow>
    length (subsets A) = k \<longrightarrow> length (subsets B) = k \<longrightarrow>
    size (weights A) + size (weights B) \<le> k \<longrightarrow> Partition_Merge B A (Inr M) \<longrightarrow>
      each_alone M \<and> (t \<in> set (subsets M) \<longrightarrow> length (numbers t) \<le> 1))"
proof -
  have one: "length (numbers u) \<le> 1" if "each_alone q" "u \<in> set (subsets q)" for q u
  proof -
    from that have "alone u" by (simp add: each_alone_def list_all_iff)
    then show ?thesis by (rule alone_cases) simp_all
  qed
  show ?thesis
  proof (intro conjI impI)
    assume a: "length nums \<le> k" "\<forall>w\<in>set nums. w \<noteq> 0" "KarmarkarKarp nums k (Inr p)"
    from a(3) obtain n where run: "KarmarkarKarp_steps nums k n (Inr p)"
      unfolding KarmarkarKarp_def by blast
    from KarmarkarKarp_weights(1,2) [OF run]
    show "weights p = mset nums" "length (subsets p) = k" .
    assume "s \<in> set (subsets p)"
    with KarmarkarKarp_few [OF run a(1,2)] show "length (numbers s) \<le> 1" by (rule one)
  next
    assume "each_alone B" "descending B" "each_alone A" "descending A"
      "length (subsets A) = k" "length (subsets B) = k"
      "size (weights A) + size (weights B) \<le> k" "Partition_Merge B A (Inr M)"
    then show m: "each_alone M" by (rule Partition_Merge_each_alone)
    assume "t \<in> set (subsets M)"
    with m show "length (numbers t) \<le> 1" by (rule one)
  qed
qed

theorem few_positive_numbers_each_alone_witness:
  "KarmarkarKarp [1, 2] 2 (Inr result12) \<and>
   length (numbers \<lparr>numbers = [1], sum_of = 1\<rparr>) \<le> 1 \<and>
   weights result12 = mset [1, 2] \<and> length (subsets result12) = 2 \<and>
   Partition_Merge (single 1) (single 2) (Inr result12) \<and> each_alone result12 \<and>
   length (numbers \<lparr>numbers = [2], sum_of = 2\<rparr>) \<le> 1"
proof -
  have e: "each_alone (single 1)" "each_alone (single 2)"
    by (simp_all add: each_alone_def alone_def)
  have d: "descending (single 1)" "descending (single 2)"
    by (simp_all add: descending_def)
  have w: "size (weights (single 2)) + size (weights (single 1)) \<le> 2"
    by (simp add: weights_def)
  from few_positive_numbers_each_alone [where nums = "[1, 2]" and k = 2 and p = result12
      and s = "\<lparr>numbers = [1], sum_of = 1\<rparr>" and B = "single 1" and A = "single 2"
      and M = result12 and t = "\<lparr>numbers = [2], sum_of = 2\<rparr>"]
    e d w ex_run12 ex_Partition_Merge12
  show ?thesis by simp
qed

text \<open>
  C10 as it is stated fails when a number is 0: an empty subset and a subset holding
  0 have the same sum, so \<^verbatim>\<open>std::sort\<close> may leave an empty subset before one that is
  not, and the pairing then puts two numbers together. On the numbers 0, 0, 0 with
  three subsets, a sort that leaves equal elements where they are gives a result
  whose last subset holds two numbers and whose second is empty.
\<close>

theorem each_alone_counterexample:
  "length [0, 0, 0 :: number] \<le> 3 \<and> KarmarkarKarp [0, 0, 0] 3 (Inr result000) \<and>
   numbers (subsets result000 ! 2) = [0, 0] \<and> \<not> length (numbers (subsets result000 ! 2)) \<le> 1"
proof -
  have "KarmarkarKarp_run [0, 0, 0] 3 = Inr result000" by code_simp
  with KarmarkarKarp_run_valid [of "[0, 0, 0]" 3] show ?thesis by simp
qed

subsection \<open>The spread\<close>

lemma difference_equal_sums:
  assumes "subsets p \<noteq> []" "\<forall>s\<in>set (subsets p). sum_of s = c"
  shows "difference p = 0"
proof -
  from assms(1) have "hd (subsets p) \<in> set (subsets p)" "last (subsets p) \<in> set (subsets p)"
    by simp_all
  with assms(2) show ?thesis by (simp add: difference_def)
qed

lemma sum_list_zeros: "\<forall>x\<in>set xs. x = (0 :: number) \<Longrightarrow> sum_list xs = 0"
  by (induction xs) simp_all

lemma numbers_in_weights: "s \<in> set (subsets p) \<Longrightarrow> x \<in> set (numbers s) \<Longrightarrow> x \<in># weights p"
  by (auto simp: weights_def)

lemma alone_all_full:
  "list_all alone xs \<Longrightarrow> length (concat (map numbers xs)) = length xs \<Longrightarrow>
   \<forall>s\<in>set xs. numbers s \<noteq> []"
proof (induction xs)
  case (Cons x xs)
  from Cons.prems(1) have x: "alone x" and xs: "list_all alone xs" by simp_all
  from x have lx: "length (numbers x) \<le> 1" by (rule alone_cases) simp_all
  from alone_count [OF xs] lx Cons.prems(2)
  have "length (numbers x) = 1" "length (concat (map numbers xs)) = length xs" by simp_all
  with Cons.IH [OF xs] show ?case by auto
qed simp

lemma equal_numbers_spread:
  assumes "KarmarkarKarp_steps (replicate k w) k n (Inr p)"
  shows "difference p = 0"
proof -
  note r = KarmarkarKarp_weights [OF assms]
  from r(2,3) have ne: "subsets p \<noteq> []" by auto
  have all_w: "x = w" if "s \<in> set (subsets p)" "x \<in> set (numbers s)" for s x
    using numbers_in_weights [OF that] unfolding r(1) by (simp split: if_splits)
  show ?thesis
  proof (cases "w = 0")
    case True
    have "sum_of s = 0" if "s \<in> set (subsets p)" for s
    proof -
      from that r(4) have "sum_of s = sum_list (numbers s)"
        by (simp add: sums_cached_def list_all_iff)
      also have "\<dots> = 0" using all_w [OF that] True by (intro sum_list_zeros) simp
      finally show ?thesis .
    qed
    then show ?thesis using ne by (intro difference_equal_sums [where c = 0]) simp_all
  next
    case False
    have ea: "each_alone p" using assms by (rule KarmarkarKarp_few) (simp_all add: False)
    have "length (concat (map numbers (subsets p))) = length (subsets p)"
      using arg_cong [OF r(1), of size] r(2) by (simp add: weights_def)
    with ea have full: "\<forall>s\<in>set (subsets p). numbers s \<noteq> []"
      by (intro alone_all_full) (simp_all add: each_alone_def)
    have "sum_of s = w" if "s \<in> set (subsets p)" for s
    proof -
      from that ea have "alone s" by (simp add: each_alone_def list_all_iff)
      then show ?thesis
      proof (cases rule: alone_cases)
        case empty
        with full that show ?thesis by simp
      next
        case (one v)
        with all_w [OF that, of v] show ?thesis by simp
      qed
    qed
    then show ?thesis using ne by (intro difference_equal_sums [where c = w]) simp_all
  qed
qed

lemma ex_run124_in_one: "KarmarkarKarp [1, 2, 4] 1 (Inr result124_in_one)"
proof -
  have "KarmarkarKarp_run [1, 2, 4] 1 = Inr result124_in_one" by code_simp
  with KarmarkarKarp_run_valid [of "[1, 2, 4]" 1] show ?thesis by simp
qed

lemma ex_run333: "KarmarkarKarp (replicate 3 3) 3 (Inr result333)"
proof -
  have "KarmarkarKarp_run (replicate 3 3) 3 = Inr result333" by code_simp
  with KarmarkarKarp_run_valid [of "replicate 3 3" 3] show ?thesis by simp
qed

lemma descending_last_le_hd:
  assumes "subsets q \<noteq> []" "descending q"
  shows "sum_of (last (subsets q)) \<le> sum_of (hd (subsets q))"
proof (cases "length (subsets q) = 1")
  case True
  then obtain s where "subsets q = [s]" by (cases "subsets q") auto
  then show ?thesis by simp
next
  case False
  with assms(1) have "0 < length (subsets q) - 1" "length (subsets q) - 1 < length (subsets q)"
    by (cases "subsets q"; simp)+
  with assms(2) have "sum_of (subsets q ! (length (subsets q) - 1)) \<le> sum_of (subsets q ! 0)"
    unfolding descending_def sorted_wrt_iff_nth_less by blast
  with assms(1) show ?thesis by (simp add: hd_conv_nth last_conv_nth)
qed

text \<open>
  C8, as the code has it. \<open>difference\<close> is an unsigned number, so it is never below 0;
  and in a partition whose subsets stand in descending order the subtraction does not
  wrap: the last sum is at most the first, and \<open>difference\<close> is the first sum less the
  last. It is 0 for the result of \<^verbatim>\<open>KarmarkarKarp\<close> when \<open>k = 1\<close>, and when the input is
  \<open>k\<close> times the same number, to be split into \<open>k\<close> subsets.
\<close>

theorem spread_not_negative_and_zero_cases:
  "0 \<le> difference p \<and>
   (subsets q \<noteq> [] \<longrightarrow> descending q \<longrightarrow>
      sum_of (last (subsets q)) \<le> sum_of (hd (subsets q)) \<and>
      unat (difference q) = unat (sum_of (hd (subsets q))) - unat (sum_of (last (subsets q)))) \<and>
   (KarmarkarKarp nums 1 (Inr p1) \<longrightarrow> difference p1 = 0) \<and>
   (KarmarkarKarp (replicate k w) k (Inr pk) \<longrightarrow> difference pk = 0)"
proof (intro conjI impI)
  show "0 \<le> difference p" by simp
next
  assume "subsets q \<noteq> []" "descending q"
  then show le: "sum_of (last (subsets q)) \<le> sum_of (hd (subsets q))"
    by (rule descending_last_le_hd)
  then show "unat (difference q) = unat (sum_of (hd (subsets q))) - unat (sum_of (last (subsets q)))"
    unfolding difference_def by (rule unat_sub)
next
  assume "KarmarkarKarp nums 1 (Inr p1)"
  then obtain n where "KarmarkarKarp_steps nums 1 n (Inr p1)"
    unfolding KarmarkarKarp_def by blast
  from KarmarkarKarp_weights(2) [OF this] obtain s where "subsets p1 = [s]"
    by (cases "subsets p1") auto
  then show "difference p1 = 0" by (simp add: difference_def)
next
  assume "KarmarkarKarp (replicate k w) k (Inr pk)"
  then obtain n where "KarmarkarKarp_steps (replicate k w) k n (Inr pk)"
    unfolding KarmarkarKarp_def by blast
  then show "difference pk = 0" by (rule equal_numbers_spread)
qed

theorem spread_not_negative_and_zero_cases_witness:
  "0 \<le> difference result124 \<and> descending result124 \<and>
   sum_of (last (subsets result124)) \<le> sum_of (hd (subsets result124)) \<and>
   unat (difference result124) =
     unat (sum_of (hd (subsets result124))) - unat (sum_of (last (subsets result124))) \<and>
   KarmarkarKarp [1, 2, 4] 1 (Inr result124_in_one) \<and> difference result124_in_one = 0 \<and>
   KarmarkarKarp (replicate 3 3) 3 (Inr result333) \<and> difference result333 = 0"
proof -
  have d: "descending result124" by (simp add: descending_def)
  from spread_not_negative_and_zero_cases [where p = result124 and q = result124
      and nums = "[1, 2, 4]" and ?p1.0 = result124_in_one and k = 3 and w = 3 and pk = result333]
    d ex_run124_in_one ex_run333
  show ?thesis by simp
qed

text \<open>
  C8 as it is stated fails for numbers that can be balanced perfectly: 4, 5, 6, 7, 8
  split into 4, 5, 6 and 7, 8, of sum 15 each, but the differencing merges 8 with 7
  and 6 with 5 first, and \<^verbatim>\<open>KarmarkarKarp\<close> returns subsets of sums 16 and 14.
\<close>

theorem balanced_spread_counterexample:
  "mset ([4, 5, 6] @ [7, 8]) = mset [4, 5, 6, 7, 8 :: number] \<and>
   sum_list [4, 5, 6 :: number] = sum_list [7, 8] \<and>
   KarmarkarKarp [4, 5, 6, 7, 8] 2 (Inr result45678) \<and>
   difference result45678 = 2 \<and> difference result45678 \<noteq> 0"
proof -
  have "KarmarkarKarp_run [4, 5, 6, 7, 8] 2 = Inr result45678" by code_simp
  with KarmarkarKarp_run_valid [of "[4, 5, 6, 7, 8]" 2] show ?thesis
    by (simp add: difference_def)
qed

end
